theory Spec2Isabelle
  imports Main
begin

section \<open>Python lists, indexing and exceptions\<close>

text \<open>
  The engine of \<^verbatim>\<open>game_state.py\<close> indexes nested Python lists with integers that come
  from its caller. A Python list of length \<open>n\<close> accepts the indices \<open>-n .. n-1\<close> (a negative
  index counts from the end) and raises \<^verbatim>\<open>IndexError\<close> on every other one; reading an
  attribute of \<^verbatim>\<open>None\<close> raises \<^verbatim>\<open>AttributeError\<close>. A raised exception is the value
  \<open>Inl e\<close>.
\<close>

datatype error = IndexError | AttributeError

definition ebind :: "error + 'a \<Rightarrow> ('a \<Rightarrow> error + 'b) \<Rightarrow> error + 'b" where
  "ebind m f = (case m of Inl e \<Rightarrow> Inl e | Inr x \<Rightarrow> f x)"

definition pos :: "'a list \<Rightarrow> int \<Rightarrow> error + nat" where
  "pos xs i =
     (if 0 \<le> i \<and> i < int (length xs) then Inr (nat i)
      else if - int (length xs) \<le> i \<and> i < 0 then Inr (nat (i + int (length xs)))
      else Inl IndexError)"

definition getitem :: "'a list \<Rightarrow> int \<Rightarrow> error + 'a" where
  "getitem xs i = ebind (pos xs i) (\<lambda>k. Inr (xs ! k))"

definition setitem :: "'a list \<Rightarrow> int \<Rightarrow> 'a \<Rightarrow> error + 'a list" where
  "setitem xs i v = ebind (pos xs i) (\<lambda>k. Inr (xs[k := v]))"

section \<open>Data model of game\_state.py\<close>

record piece =
  color :: string
  king :: bool

type_synonym board = "piece option list list"

record game =
  board :: board
  current_player :: string
  selected_piece :: "(int \<times> int) option"
  valid_moves :: "(int \<times> int) list"
  must_capture :: bool
  winner :: "string option"

text \<open>\<^verbatim>\<open>self.board[row][col]\<close> as an expression and as an assignment target. The rows of
  the board are distinct list objects, so storing into one row changes no other row.\<close>

definition board_get :: "board \<Rightarrow> int \<Rightarrow> int \<Rightarrow> error + piece option" where
  "board_get b row col = ebind (getitem b row) (\<lambda>r. getitem r col)"

definition board_set :: "board \<Rightarrow> int \<Rightarrow> int \<Rightarrow> piece option \<Rightarrow> error + board" where
  "board_set b row col v =
     ebind (getitem b row) (\<lambda>r. ebind (setitem r col v) (\<lambda>r'. setitem b row r'))"

subsection \<open>initialize\_board\<close>

definition place :: "string \<Rightarrow> nat list \<Rightarrow> board \<Rightarrow> board" where
  "place c rows b =
     fold (\<lambda>(row, col) b.
             if (row + col) mod 2 = 1
             then b[row := (b ! row)[col := Some \<lparr>color = c, king = False\<rparr>]] else b)
          (List.product rows [0..<8]) b"

definition initialize_board :: board where
  "initialize_board =
     place ''red'' [5..<8] (place ''black'' [0..<3] (replicate 8 (replicate 8 None)))"

subsection \<open>\_get\_piece\_moves\<close>

text \<open>Lines 49-55: the directions of a piece, inlined in \<^verbatim>\<open>_get_piece_moves\<close>.\<close>

definition piece_directions :: "piece \<Rightarrow> (int \<times> int) list" where
  "piece_directions p =
     (if color p = ''red'' \<or> king p then [(-1, -1), (-1, 1)] else []) @
     (if color p = ''black'' \<or> king p then [(1, -1), (1, 1)] else [])"

text \<open>Lines 62-65: the condition of a capture in one direction. Python's \<^verbatim>\<open>and\<close> evaluates
  from the left and stops at the first false operand, so the board is read only when the
  landing square is on the board.\<close>

definition capture_cond :: "board \<Rightarrow> piece \<Rightarrow> int \<Rightarrow> int \<Rightarrow> int \<times> int \<Rightarrow> error + bool" where
  "capture_cond b p row col d =
     (let new_row = row + fst d * 2; new_col = col + snd d * 2;
          mid_row = row + fst d; mid_col = col + snd d
      in if 0 \<le> new_row \<and> new_row < 8 \<and> 0 \<le> new_col \<and> new_col < 8 then
           ebind (board_get b mid_row mid_col) (\<lambda>mid.
             case mid of
               None \<Rightarrow> Inr False
             | Some m \<Rightarrow>
                 if color m \<noteq> color p
                 then ebind (board_get b new_row new_col) (\<lambda>dest. Inr (dest = None))
                 else Inr False)
         else Inr False)"

fun capture_loop :: "board \<Rightarrow> piece \<Rightarrow> int \<Rightarrow> int \<Rightarrow> (int \<times> int) list \<Rightarrow> error + (int \<times> int) list" where
  "capture_loop b p row col [] = Inr []"
| "capture_loop b p row col (d # ds) =
     ebind (capture_cond b p row col d) (\<lambda>hit.
     ebind (capture_loop b p row col ds) (\<lambda>rest.
       Inr (if hit then (row + fst d * 2, col + snd d * 2) # rest else rest)))"

text \<open>Lines 71-74: the simple moves.\<close>

fun move_loop :: "board \<Rightarrow> int \<Rightarrow> int \<Rightarrow> (int \<times> int) list \<Rightarrow> error + (int \<times> int) list" where
  "move_loop b row col [] = Inr []"
| "move_loop b row col (d # ds) =
     (let new_row = row + fst d; new_col = col + snd d in
      ebind (if 0 \<le> new_row \<and> new_row < 8 \<and> 0 \<le> new_col \<and> new_col < 8
             then ebind (board_get b new_row new_col) (\<lambda>dest. Inr (dest = None))
             else Inr False) (\<lambda>free.
      ebind (move_loop b row col ds) (\<lambda>rest.
        Inr (if free then (new_row, new_col) # rest else rest))))"

definition get_piece_moves :: "game \<Rightarrow> int \<Rightarrow> int \<Rightarrow> bool \<Rightarrow> error + (int \<times> int) list" where
  "get_piece_moves g row col capture_only =
     ebind (board_get (board g) row col) (\<lambda>cell.
       case cell of
         None \<Rightarrow> Inr []
       | Some p \<Rightarrow>
           if color p \<noteq> current_player g then Inr []
           else
             ebind (capture_loop (board g) p row col (piece_directions p)) (\<lambda>captures.
               if captures \<noteq> [] \<or> capture_only then Inr captures
               else move_loop (board g) row col (piece_directions p)))"

subsection \<open>\_check\_for\_captures, \_can\_continue\_capture, is\_game\_over\<close>

text \<open>The squares in the order in which the nested iteration over \<^verbatim>\<open>range(8)\<close> visits them.\<close>

definition scan_order :: "(int \<times> int) list" where
  "scan_order = concat (map (\<lambda>row. map (\<lambda>col. (row, col)) [0..7]) [0..7])"

fun capture_scan :: "game \<Rightarrow> (int \<times> int) list \<Rightarrow> error + bool" where
  "capture_scan g [] = Inr False"
| "capture_scan g (sq # rest) =
     ebind (board_get (board g) (fst sq) (snd sq)) (\<lambda>cell.
       case cell of
         None \<Rightarrow> capture_scan g rest
       | Some p \<Rightarrow>
           if color p = current_player g
           then ebind (get_piece_moves g (fst sq) (snd sq) True) (\<lambda>ms.
                  if ms \<noteq> [] then Inr True else capture_scan g rest)
           else capture_scan g rest)"

definition check_for_captures :: "game \<Rightarrow> error + bool \<times> game" where
  "check_for_captures g =
     ebind (capture_scan g scan_order) (\<lambda>found. Inr (found, g\<lparr>must_capture := found\<rparr>))"

definition can_continue_capture :: "game \<Rightarrow> int \<Rightarrow> int \<Rightarrow> error + bool" where
  "can_continue_capture g row col =
     ebind (get_piece_moves g row col True) (\<lambda>ms. Inr (ms \<noteq> []))"

fun move_scan :: "game \<Rightarrow> (int \<times> int) list \<Rightarrow> error + bool" where
  "move_scan g [] = Inr True"
| "move_scan g (sq # rest) =
     ebind (board_get (board g) (fst sq) (snd sq)) (\<lambda>cell.
       case cell of
         None \<Rightarrow> move_scan g rest
       | Some p \<Rightarrow>
           if color p = current_player g
           then ebind (get_piece_moves g (fst sq) (snd sq) False) (\<lambda>ms.
                  if ms \<noteq> [] then Inr False else move_scan g rest)
           else move_scan g rest)"

definition is_game_over :: "game \<Rightarrow> error + bool" where
  "is_game_over g = move_scan g scan_order"

subsection \<open>The constructor\<close>

definition new_game :: "error + game" where
  "new_game =
     ebind (check_for_captures
              \<lparr>board = initialize_board, current_player = ''red'', selected_piece = None,
               valid_moves = [], must_capture = False, winner = None\<rparr>)
       (\<lambda>r. Inr (snd r))"

subsection \<open>select\_piece\<close>

definition select_piece :: "game \<Rightarrow> int \<Rightarrow> int \<Rightarrow> error + bool \<times> game" where
  "select_piece g row col =
     ebind (board_get (board g) row col) (\<lambda>cell.
       case cell of
         None \<Rightarrow> Inr (False, g)
       | Some p \<Rightarrow>
           if color p \<noteq> current_player g then Inr (False, g)
           else if must_capture g then
             ebind (get_piece_moves g row col True) (\<lambda>moves.
               if moves = [] then Inr (False, g)
               else Inr (True, g\<lparr>selected_piece := Some (row, col), valid_moves := moves\<rparr>))
           else
             ebind (get_piece_moves g row col False) (\<lambda>moves.
               Inr (True, g\<lparr>selected_piece := Some (row, col), valid_moves := moves\<rparr>)))"

subsection \<open>\_end\_turn and make\_move\<close>

definition other :: "string \<Rightarrow> string" where
  "other c = (if c = ''red'' then ''black'' else ''red'')"

definition end_turn :: "game \<Rightarrow> error + game" where
  "end_turn g =
     ebind (check_for_captures
              (g\<lparr>current_player := other (current_player g), selected_piece := None,
                 valid_moves := []\<rparr>)) (\<lambda>r.
     ebind (is_game_over (snd r)) (\<lambda>over.
       Inr (if over then (snd r)\<lparr>winner := Some (other (current_player (snd r)))\<rparr>
            else snd r)))"

text \<open>
  Line 130, \<^verbatim>\<open>piece.king = True\<close>, changes the object that line 119 stored in the landing
  square. Every piece object is referenced from one square only (each is built for one
  square and only ever moved), and after line 119 the landing square is overwritten by
  \<^verbatim>\<open>None\<close> at most, so the assignment is seen through the landing square exactly when that
  square still holds a piece.
\<close>

definition crown :: "board \<Rightarrow> int \<Rightarrow> int \<Rightarrow> error + board" where
  "crown b row col =
     ebind (board_get b row col) (\<lambda>cell.
       board_set b row col (map_option (\<lambda>p. p\<lparr>king := True\<rparr>) cell))"

definition make_move :: "game \<Rightarrow> int \<Rightarrow> int \<Rightarrow> error + bool \<times> game" where
  "make_move g new_row new_col =
     (case selected_piece g of
        None \<Rightarrow> Inr (False, g)
      | Some old \<Rightarrow>
          if (new_row, new_col) \<notin> set (valid_moves g) then Inr (False, g)
          else
            let old_row = fst old; old_col = snd old in
            ebind (board_get (board g) old_row old_col) (\<lambda>piece.
            ebind (board_set (board g) new_row new_col piece) (\<lambda>b1.
            ebind (board_set b1 old_row old_col None) (\<lambda>b2.
            let is_capture = (\<bar>new_row - old_row\<bar> = 2) in
            ebind (if is_capture
                   then board_set b2 ((new_row + old_row) div 2) ((new_col + old_col) div 2) None
                   else Inr b2) (\<lambda>b3.
            case piece of
              None \<Rightarrow> Inl AttributeError
            | Some p \<Rightarrow>
                ebind (if (color p = ''red'' \<and> new_row = 0) \<or> (color p = ''black'' \<and> new_row = 7)
                       then crown b3 new_row new_col else Inr b3) (\<lambda>b4.
                let g' = g\<lparr>board := b4\<rparr> in
                ebind (if is_capture then can_continue_capture g' new_row new_col
                       else Inr False) (\<lambda>again.
                  if again then
                    ebind (get_piece_moves g' new_row new_col True) (\<lambda>moves.
                      Inr (True, g'\<lparr>selected_piece := Some (new_row, new_col),
                                     valid_moves := moves\<rparr>))
                  else ebind (end_turn g') (\<lambda>g''. Inr (True, g'')))))))))"

subsection \<open>serialize and deserialize\<close>

text \<open>
  A snapshot is the dictionary built by \<^verbatim>\<open>serialize\<close>, with its six keys as fields. A
  serialized piece is the dictionary \<^verbatim>\<open>{'color': c, 'king': k}\<close>; it has two keys, so it
  is never empty and the test \<^verbatim>\<open>if data\<close> of \<^verbatim>\<open>Piece.deserialize\<close> succeeds on it.
\<close>

record piece_data =
  data_color :: string
  data_king :: bool

record snapshot =
  snap_board :: "piece_data option list list"
  snap_current_player :: string
  snap_selected_piece :: "(int \<times> int) option"
  snap_valid_moves :: "(int \<times> int) list"
  snap_must_capture :: bool
  snap_winner :: "string option"

definition piece_serialize :: "piece \<Rightarrow> piece_data" where
  "piece_serialize p = \<lparr>data_color = color p, data_king = king p\<rparr>"

definition piece_deserialize :: "piece_data \<Rightarrow> piece option" where
  "piece_deserialize d = Some \<lparr>color = data_color d, king = data_king d\<rparr>"

definition serialize :: "game \<Rightarrow> snapshot" where
  "serialize g =
     \<lparr>snap_board =
        map (\<lambda>row. map (\<lambda>cell. case cell of None \<Rightarrow> None
                                   | Some p \<Rightarrow> Some (piece_serialize p)) row) (board g),
      snap_current_player = current_player g,
      snap_selected_piece = selected_piece g,
      snap_valid_moves = valid_moves g,
      snap_must_capture = must_capture g,
      snap_winner = winner g\<rparr>"

definition deserialize :: "snapshot \<Rightarrow> error + game" where
  "deserialize s =
     ebind new_game (\<lambda>g.
       Inr (g\<lparr>board :=
                 map (\<lambda>row. map (\<lambda>cell. case cell of None \<Rightarrow> None
                                            | Some d \<Rightarrow> piece_deserialize d) row)
                     (snap_board s),
               current_player := snap_current_player s,
               selected_piece := snap_selected_piece s,
               valid_moves := snap_valid_moves s,
               must_capture := snap_must_capture s,
               winner := snap_winner s\<rparr>))"

section \<open>The second move generator: piece.py and board.py\<close>

definition get_move_directions :: "piece \<Rightarrow> (int \<times> int) list" where
  "get_move_directions p =
     (if color p = ''red'' \<or> king p then [(-1, -1), (-1, 1)] else []) @
     (if color p = ''black'' \<or> king p then [(1, -1), (1, 1)] else [])"

definition BOARD_SIZE :: int where
  "BOARD_SIZE = 8"

definition is_valid_position :: "int \<Rightarrow> int \<Rightarrow> bool" where
  "is_valid_position row col \<longleftrightarrow> 0 \<le> row \<and> row < BOARD_SIZE \<and> 0 \<le> col \<and> col < BOARD_SIZE"

definition get_piece :: "board \<Rightarrow> int \<Rightarrow> int \<Rightarrow> error + piece option" where
  "get_piece squares row col =
     (if is_valid_position row col then board_get squares row col else Inr None)"

definition check_capture ::
  "board \<Rightarrow> int \<Rightarrow> int \<Rightarrow> int \<Rightarrow> int \<Rightarrow> string \<Rightarrow> error + (int \<times> int) option" where
  "check_capture squares row col d_row d_col piece_color =
     (let jump_row = row + d_row * 2; jump_col = col + d_col * 2;
          mid_row = row + d_row; mid_col = col + d_col
      in if \<not> is_valid_position jump_row jump_col then Inr None
         else
           ebind (get_piece squares mid_row mid_col) (\<lambda>mid_piece.
             case mid_piece of
               None \<Rightarrow> Inr None
             | Some m \<Rightarrow>
                 if color m \<noteq> piece_color
                 then ebind (get_piece squares jump_row jump_col) (\<lambda>dest.
                        Inr (if dest = None then Some (jump_row, jump_col) else None))
                 else Inr None))"

fun board_capture_loop ::
  "board \<Rightarrow> int \<Rightarrow> int \<Rightarrow> string \<Rightarrow> (int \<times> int) list \<Rightarrow> (int \<times> int) set \<Rightarrow> error + (int \<times> int) set" where
  "board_capture_loop squares row col c [] captures = Inr captures"
| "board_capture_loop squares row col c (d # ds) captures =
     ebind (check_capture squares row col (fst d) (snd d) c) (\<lambda>capture_pos.
       board_capture_loop squares row col c ds
         (case capture_pos of None \<Rightarrow> captures | Some q \<Rightarrow> insert q captures))"

fun board_move_loop ::
  "board \<Rightarrow> int \<Rightarrow> int \<Rightarrow> (int \<times> int) list \<Rightarrow> (int \<times> int) set \<Rightarrow> error + (int \<times> int) set" where
  "board_move_loop squares row col [] moves = Inr moves"
| "board_move_loop squares row col (d # ds) moves =
     (let new_row = row + fst d; new_col = col + snd d in
      ebind (if is_valid_position new_row new_col
             then ebind (get_piece squares new_row new_col) (\<lambda>dest. Inr (dest = None))
             else Inr False) (\<lambda>free.
        board_move_loop squares row col ds
          (if free then insert (new_row, new_col) moves else moves)))"

definition get_valid_moves :: "board \<Rightarrow> int \<Rightarrow> int \<Rightarrow> bool \<Rightarrow> error + (int \<times> int) set" where
  "get_valid_moves squares row col capture_only =
     ebind (get_piece squares row col) (\<lambda>cell.
       case cell of
         None \<Rightarrow> Inr {}
       | Some p \<Rightarrow>
           ebind (board_capture_loop squares row col (color p) (get_move_directions p) {})
             (\<lambda>captures.
               if captures \<noteq> {} \<or> capture_only then Inr captures
               else board_move_loop squares row col (get_move_directions p) {}))"

section \<open>Requests and reachable states\<close>

text \<open>
  The routes \<^verbatim>\<open>/select\<close> and \<^verbatim>\<open>/move\<close> of \<^verbatim>\<open>app.py\<close> load the game, call one operation
  with the coordinates of the request, drop the returned flag and store the game again.
\<close>

datatype request = Select int int | Move int int

fun handle :: "game \<Rightarrow> request \<Rightarrow> error + game" where
  "handle g (Select row col) =
     ebind (deserialize (serialize g)) (\<lambda>g1.
     ebind (select_piece g1 row col) (\<lambda>r. Inr (snd r)))"
| "handle g (Move row col) =
     ebind (deserialize (serialize g)) (\<lambda>g1.
     ebind (make_move g1 row col) (\<lambda>r. Inr (snd r)))"

fun play :: "game \<Rightarrow> request list \<Rightarrow> error + game" where
  "play g [] = Inr g"
| "play g (r # rs) = ebind (handle g r) (\<lambda>g'. play g' rs)"

text \<open>A square of the board: both coordinates in \<open>0..7\<close>.\<close>

definition on_board :: "int \<Rightarrow> int \<Rightarrow> bool" where
  "on_board row col \<longleftrightarrow> 0 \<le> row \<and> row < 8 \<and> 0 \<le> col \<and> col < 8"

text \<open>
  The states of a game: the fresh game, and every state that a selection of a square of
  the board, an attempted move or a reload of the stored snapshot produces from one.
\<close>

inductive reachable :: "game \<Rightarrow> bool" where
  fresh: "new_game = Inr g \<Longrightarrow> reachable g"
| selected: "reachable g \<Longrightarrow> on_board row col \<Longrightarrow> select_piece g row col = Inr (ok, g') \<Longrightarrow>
     reachable g'"
| moved: "reachable g \<Longrightarrow> make_move g row col = Inr (ok, g') \<Longrightarrow> reachable g'"
| reloaded: "reachable g \<Longrightarrow> deserialize (serialize g) = Inr g' \<Longrightarrow> reachable g'"

text \<open>
  The same without the restriction to the board: \<^verbatim>\<open>app.py\<close> hands the numbers of the
  request to the engine unchecked, so any integers may arrive. A call that raises
  produces no state.
\<close>

inductive reachable_any :: "game \<Rightarrow> bool" where
  fresh_any: "new_game = Inr g \<Longrightarrow> reachable_any g"
| selected_any: "reachable_any g \<Longrightarrow> select_piece g row col = Inr (ok, g') \<Longrightarrow>
     reachable_any g'"
| moved_any: "reachable_any g \<Longrightarrow> make_move g row col = Inr (ok, g') \<Longrightarrow> reachable_any g'"
| reloaded_any: "reachable_any g \<Longrightarrow> deserialize (serialize g) = Inr g' \<Longrightarrow> reachable_any g'"

fun selects_on_board :: "request list \<Rightarrow> bool" where
  "selects_on_board [] \<longleftrightarrow> True"
| "selects_on_board (Select row col # rs) \<longleftrightarrow> on_board row col \<and> selects_on_board rs"
| "selects_on_board (Move row col # rs) \<longleftrightarrow> selects_on_board rs"

section \<open>The board as a grid\<close>

definition wf_board :: "board \<Rightarrow> bool" where
  "wf_board b \<longleftrightarrow> length b = 8 \<and> list_all (\<lambda>r. length r = 8) b"

definition at :: "board \<Rightarrow> int \<Rightarrow> int \<Rightarrow> piece option" where
  "at b row col = b ! nat row ! nat col"

definition put :: "board \<Rightarrow> int \<Rightarrow> int \<Rightarrow> piece option \<Rightarrow> board" where
  "put b row col v = b[nat row := (b ! nat row)[nat col := v]]"

definition jump_ok :: "board \<Rightarrow> piece \<Rightarrow> int \<Rightarrow> int \<Rightarrow> int \<times> int \<Rightarrow> bool" where
  "jump_ok b p row col d \<longleftrightarrow>
     on_board (row + fst d * 2) (col + snd d * 2) \<and>
     (case at b (row + fst d) (col + snd d) of None \<Rightarrow> False | Some m \<Rightarrow> color m \<noteq> color p) \<and>
     at b (row + fst d * 2) (col + snd d * 2) = None"

definition jumps :: "board \<Rightarrow> piece \<Rightarrow> int \<Rightarrow> int \<Rightarrow> (int \<times> int) list" where
  "jumps b p row col =
     map (\<lambda>d. (row + fst d * 2, col + snd d * 2))
         (filter (jump_ok b p row col) (piece_directions p))"

definition step_ok :: "board \<Rightarrow> int \<Rightarrow> int \<Rightarrow> int \<times> int \<Rightarrow> bool" where
  "step_ok b row col d \<longleftrightarrow>
     on_board (row + fst d) (col + snd d) \<and> at b (row + fst d) (col + snd d) = None"

definition steps :: "board \<Rightarrow> piece \<Rightarrow> int \<Rightarrow> int \<Rightarrow> (int \<times> int) list" where
  "steps b p row col =
     map (\<lambda>d. (row + fst d, col + snd d)) (filter (step_ok b row col) (piece_directions p))"

definition moves :: "board \<Rightarrow> string \<Rightarrow> int \<Rightarrow> int \<Rightarrow> bool \<Rightarrow> (int \<times> int) list" where
  "moves b pl row col capture_only =
     (case at b row col of
        None \<Rightarrow> []
      | Some p \<Rightarrow>
          if color p \<noteq> pl then []
          else if jumps b p row col \<noteq> [] \<or> capture_only then jumps b p row col
          else steps b p row col)"

definition has_capture :: "board \<Rightarrow> string \<Rightarrow> bool" where
  "has_capture b pl \<longleftrightarrow> list_ex (\<lambda>sq. moves b pl (fst sq) (snd sq) True \<noteq> []) scan_order"

definition no_moves :: "board \<Rightarrow> string \<Rightarrow> bool" where
  "no_moves b pl \<longleftrightarrow> list_all (\<lambda>sq. moves b pl (fst sq) (snd sq) False = []) scan_order"

definition dark :: "board \<Rightarrow> bool" where
  "dark b \<longleftrightarrow> list_all (\<lambda>sq. at b (fst sq) (snd sq) \<noteq> None \<longrightarrow> odd (fst sq + snd sq)) scan_order"

definition dark_inv :: "game \<Rightarrow> bool" where
  "dark_inv g \<longleftrightarrow>
     wf_board (board g) \<and> dark (board g) \<and>
     list_all (\<lambda>m. on_board (fst m) (snd m) \<and> odd (fst m + snd m)) (valid_moves g)"

definition unit_dir :: "int \<times> int \<Rightarrow> bool" where
  "unit_dir d \<longleftrightarrow> \<bar>fst d\<bar> = 1 \<and> \<bar>snd d\<bar> = 1"

text \<open>The effect of \<^verbatim>\<open>_end_turn\<close> and of lines 119-130 of \<^verbatim>\<open>make_move\<close> on a grid,
  for squares of the board.\<close>

definition turn_end :: "game \<Rightarrow> game" where
  "turn_end g =
     (let pl = other (current_player g);
          g1 = g\<lparr>current_player := pl, selected_piece := None, valid_moves := [],
                 must_capture := has_capture (board g) pl\<rparr>
      in if no_moves (board g) pl then g1\<lparr>winner := Some (other pl)\<rparr> else g1)"

definition promoted :: "piece \<Rightarrow> int \<Rightarrow> piece" where
  "promoted p new_row =
     (if (color p = ''red'' \<and> new_row = 0) \<or> (color p = ''black'' \<and> new_row = 7)
      then p\<lparr>king := True\<rparr> else p)"

definition relocate :: "board \<Rightarrow> int \<times> int \<Rightarrow> int \<times> int \<Rightarrow> piece \<Rightarrow> board" where
  "relocate b old new p =
     (let b2 = put (put b (fst new) (snd new) (Some p)) (fst old) (snd old) None;
          b3 = (if \<bar>fst new - fst old\<bar> = 2
                then put b2 ((fst new + fst old) div 2) ((snd new + snd old) div 2) None
                else b2)
      in if (color p = ''red'' \<and> fst new = 0) \<or> (color p = ''black'' \<and> fst new = 7)
         then put b3 (fst new) (snd new)
                (map_option (\<lambda>q. q\<lparr>king := True\<rparr>) (at b3 (fst new) (snd new)))
         else b3)"

definition consistent :: "game \<Rightarrow> bool" where
  "consistent g \<longleftrightarrow>
     wf_board (board g) \<and>
     (must_capture g \<longleftrightarrow> has_capture (board g) (current_player g)) \<and>
     (case selected_piece g of
        None \<Rightarrow> valid_moves g = []
      | Some sq \<Rightarrow>
          on_board (fst sq) (snd sq) \<and>
          valid_moves g = moves (board g) (current_player g) (fst sq) (snd sq) False) \<and>
     (current_player g = ''red'' \<or> current_player g = ''black'') \<and>
     (winner g \<noteq> None \<longrightarrow> no_moves (board g) (current_player g))"

text \<open>The state that the constructor returns.\<close>

definition fresh_game :: game where
  "fresh_game =
     \<lparr>board = initialize_board, current_player = ''red'', selected_piece = None,
      valid_moves = [], must_capture = False, winner = None\<rparr>"

text \<open>
  The two operations on a consistent game, without the exception layer, and the run of a
  list of requests with them.
\<close>

definition select_on :: "game \<Rightarrow> int \<Rightarrow> int \<Rightarrow> bool \<times> game" where
  "select_on g row col =
     (case at (board g) row col of
        None \<Rightarrow> (False, g)
      | Some p \<Rightarrow>
          if color p \<noteq> current_player g then (False, g)
          else if must_capture g \<and> moves (board g) (current_player g) row col True = []
          then (False, g)
          else (True, g\<lparr>selected_piece := Some (row, col),
                        valid_moves := moves (board g) (current_player g) row col (must_capture g)\<rparr>))"

definition move_on :: "game \<Rightarrow> int \<Rightarrow> int \<Rightarrow> bool \<times> game" where
  "move_on g row col =
     (case selected_piece g of
        None \<Rightarrow> (False, g)
      | Some old \<Rightarrow>
          if (row, col) \<notin> set (valid_moves g) then (False, g)
          else
            case at (board g) (fst old) (snd old) of
              None \<Rightarrow> (False, g)
            | Some p \<Rightarrow>
                if \<bar>row - fst old\<bar> = 2 \<and>
                   moves (relocate (board g) old (row, col) p) (current_player g) row col True \<noteq> []
                then (True, g\<lparr>board := relocate (board g) old (row, col) p,
                              selected_piece := Some (row, col),
                              valid_moves := moves (relocate (board g) old (row, col) p)
                                               (current_player g) row col True\<rparr>)
                else (True, turn_end (g\<lparr>board := relocate (board g) old (row, col) p\<rparr>)))"

fun run :: "game \<Rightarrow> request list \<Rightarrow> game" where
  "run g [] = g"
| "run g (Select row col # rs) = run (snd (select_on g row col)) rs"
| "run g (Move row col # rs) = run (snd (move_on g row col)) rs"

section \<open>States of one recorded game\<close>

definition red_man :: "piece option" where
  "red_man = Some \<lparr>color = ''red'', king = False\<rparr>"

definition black_man :: "piece option" where
  "black_man = Some \<lparr>color = ''black'', king = False\<rparr>"

text \<open>Red has selected the piece on (5, 2) in the fresh game, and has moved it to (4, 3).\<close>

definition opening_selected :: game where
  "opening_selected = fresh_game\<lparr>selected_piece := Some (5, 2), valid_moves := [(4, 1), (4, 3)]\<rparr>"


text \<open>Black has answered (2, 5) to (3, 4): the red piece on (4, 3) can capture it.\<close>

definition capture_offered :: game where
  "capture_offered =
     \<lparr>board =
        [[None, black_man, None, black_man, None, black_man, None, black_man],
         [black_man, None, black_man, None, black_man, None, black_man, None],
         [None, black_man, None, black_man, None, None, None, black_man],
         [None, None, None, None, black_man, None, None, None],
         [None, None, None, red_man, None, None, None, None],
         [red_man, None, None, None, red_man, None, red_man, None],
         [None, red_man, None, red_man, None, red_man, None, red_man],
         [red_man, None, red_man, None, red_man, None, red_man, None]],
      current_player = ''red'', selected_piece = None, valid_moves = [],
      must_capture = True, winner = None\<rparr>"

text \<open>
  Another game: red (5, 4) to (4, 3), black (2, 5) to (3, 6), red (6, 5) to (5, 4), black
  (3, 6) to (4, 7), red (4, 3) to (3, 2), and black selects (2, 1). Black then jumps from
  (2, 1) over (3, 2) to (4, 3), from where the same piece can jump over (5, 4) to (6, 5).
\<close>

definition chain_requests :: "request list" where
  "chain_requests =
     [Select 5 4, Move 4 3, Select 2 5, Move 3 6, Select 6 5, Move 5 4, Select 3 6, Move 4 7,
      Select 4 3, Move 3 2, Select 2 1]"

definition before_jump :: game where
  "before_jump =
     \<lparr>board =
        [[None, black_man, None, black_man, None, black_man, None, black_man],
         [black_man, None, black_man, None, black_man, None, black_man, None],
         [None, black_man, None, black_man, None, None, None, black_man],
         [None, None, red_man, None, None, None, None, None],
         [None, None, None, None, None, None, None, black_man],
         [red_man, None, red_man, None, red_man, None, red_man, None],
         [None, red_man, None, red_man, None, None, None, red_man],
         [red_man, None, red_man, None, red_man, None, red_man, None]],
      current_player = ''black'', selected_piece = Some (2, 1), valid_moves = [(4, 3)],
      must_capture = True, winner = None\<rparr>"

definition in_chain :: game where
  "in_chain =
     \<lparr>board =
        [[None, black_man, None, black_man, None, black_man, None, black_man],
         [black_man, None, black_man, None, black_man, None, black_man, None],
         [None, None, None, black_man, None, None, None, black_man],
         [None, None, None, None, None, None, None, None],
         [None, None, None, black_man, None, None, None, black_man],
         [red_man, None, red_man, None, red_man, None, red_man, None],
         [None, red_man, None, red_man, None, None, None, red_man],
         [red_man, None, red_man, None, red_man, None, red_man, None]],
      current_player = ''black'', selected_piece = Some (4, 3), valid_moves = [(6, 5)],
      must_capture = True, winner = None\<rparr>"




text \<open>A position with a red king on (4, 3) between two black men.\<close>

definition red_king :: "piece option" where
  "red_king = Some \<lparr>color = ''red'', king = True\<rparr>"

definition king_position :: game where
  "king_position =
     \<lparr>board =
        [[None, None, None, None, None, None, None, None],
         [None, None, None, None, None, None, None, None],
         [None, None, None, None, None, None, None, None],
         [None, None, black_man, None, None, None, None, None],
         [None, None, None, red_king, None, None, None, None],
         [None, None, None, None, black_man, None, None, None],
         [None, None, None, None, None, None, None, None],
         [None, None, None, None, None, None, None, None]],
      current_player = ''red'', selected_piece = None, valid_moves = [],
      must_capture = True, winner = None\<rparr>"

lemma ebind_Inr [simp]: "ebind (Inr x) f = f x"
  by (simp add: ebind_def)

lemma ebind_Inl [simp]: "ebind (Inl e) f = Inl e"
  by (simp add: ebind_def)

lemma ebind_eq_Inr: "ebind m f = Inr y \<longleftrightarrow> (\<exists>x. m = Inr x \<and> f x = Inr y)"
  by (cases m) simp_all

lemma wf_board_row: "wf_board b \<Longrightarrow> k < 8 \<Longrightarrow> length (b ! k) = 8"
  by (simp add: wf_board_def list_all_length)

lemma getitem_on: "0 \<le> i \<Longrightarrow> i < int (length xs) \<Longrightarrow> getitem xs i = Inr (xs ! nat i)"
  by (simp add: getitem_def pos_def)

lemma setitem_on: "0 \<le> i \<Longrightarrow> i < int (length xs) \<Longrightarrow> setitem xs i v = Inr (xs[nat i := v])"
  by (simp add: setitem_def pos_def)

lemma board_get_on:
  assumes "wf_board b" "on_board row col"
  shows "board_get b row col = Inr (at b row col)"
proof -
  from assms have r: "0 \<le> row" "row < int (length b)" "nat row < 8"
    by (auto simp: wf_board_def on_board_def)
  from assms r have c: "0 \<le> col" "col < int (length (b ! nat row))"
    by (auto simp: wf_board_row on_board_def)
  show ?thesis
    by (simp add: board_get_def at_def getitem_on [OF r(1,2)] getitem_on [OF c])
qed

lemma board_set_on:
  assumes "wf_board b" "on_board row col"
  shows "board_set b row col v = Inr (put b row col v)"
proof -
  from assms have r: "0 \<le> row" "row < int (length b)" "nat row < 8"
    by (auto simp: wf_board_def on_board_def)
  from assms r have c: "0 \<le> col" "col < int (length (b ! nat row))"
    by (auto simp: wf_board_row on_board_def)
  show ?thesis
    by (simp add: board_set_def put_def getitem_on [OF r(1,2)] setitem_on [OF c]
        setitem_on [OF r(1,2)])
qed

lemma wf_board_put: "wf_board b \<Longrightarrow> wf_board (put b row col v)"
  by (cases "nat row < length b")
     (auto simp: wf_board_def put_def list_all_length nth_list_update)

lemma at_put:
  "wf_board b \<Longrightarrow> on_board row col \<Longrightarrow> on_board r c \<Longrightarrow>
   at (put b row col v) r c = (if r = row \<and> c = col then v else at b r c)"
  by (auto simp: at_def put_def on_board_def wf_board_row wf_board_def nth_list_update nat_eq_iff)


lemma dirs_subset: "set (piece_directions p) \<subseteq> {(-1, -1), (-1, 1), (1, -1), (1, 1)}"
  by (auto simp: piece_directions_def)

lemma unit_dir_piece_directions: "d \<in> set (piece_directions p) \<Longrightarrow> unit_dir d"
  using dirs_subset [of p] by (auto simp: unit_dir_def)

lemma on_board_mid:
  "on_board row col \<Longrightarrow> unit_dir d \<Longrightarrow> on_board (row + fst d * 2) (col + snd d * 2) \<Longrightarrow>
   on_board (row + fst d) (col + snd d)"
  by (auto simp: on_board_def unit_dir_def)

lemma capture_cond_on:
  assumes "wf_board b" "on_board row col" "unit_dir d"
  shows "capture_cond b p row col d = Inr (jump_ok b p row col d)"
proof (cases "on_board (row + fst d * 2) (col + snd d * 2)")
  case True
  with assms have m: "on_board (row + fst d) (col + snd d)" by (simp add: on_board_mid)
  from True have t: "0 \<le> row + fst d * 2 \<and> row + fst d * 2 < 8 \<and> 0 \<le> col + snd d * 2 \<and> col + snd d * 2 < 8"
    by (simp add: on_board_def)
  show ?thesis
    by (simp add: capture_cond_def Let_def t board_get_on [OF assms(1) m]
        board_get_on [OF assms(1) True] jump_ok_def True split: option.split)
next
  case False
  then show ?thesis by (auto simp: capture_cond_def Let_def jump_ok_def on_board_def)
qed

lemma capture_loop_on:
  assumes "wf_board b" "on_board row col"
  shows "\<forall>d \<in> set ds. unit_dir d \<Longrightarrow>
         capture_loop b p row col ds =
         Inr (map (\<lambda>d. (row + fst d * 2, col + snd d * 2)) (filter (jump_ok b p row col) ds))"
  by (induction ds) (simp_all add: capture_cond_on [OF assms])

lemma move_loop_on:
  assumes "wf_board b"
  shows "move_loop b row col ds =
         Inr (map (\<lambda>d. (row + fst d, col + snd d)) (filter (step_ok b row col) ds))"
proof (induction ds)
  case Nil
  show ?case by simp
next
  case (Cons d ds)
  show ?case
  proof (cases "on_board (row + fst d) (col + snd d)")
    case True
    then have t: "0 \<le> row + fst d \<and> row + fst d < 8 \<and> 0 \<le> col + snd d \<and> col + snd d < 8"
      by (simp add: on_board_def)
    show ?thesis
      by (simp add: Let_def t Cons.IH board_get_on [OF assms True] step_ok_def True)
  next
    case False
    then show ?thesis by (auto simp: Let_def Cons.IH step_ok_def on_board_def)
  qed
qed

lemma get_piece_moves_on:
  assumes "wf_board (board g)" "on_board row col"
  shows "get_piece_moves g row col co = Inr (moves (board g) (current_player g) row col co)"
  by (simp add: get_piece_moves_def moves_def board_get_on [OF assms] jumps_def steps_def
      capture_loop_on [OF assms] move_loop_on [OF assms(1)] unit_dir_piece_directions
      split: option.split)

lemma set_scan_order: "sq \<in> set scan_order \<longleftrightarrow> on_board (fst sq) (snd sq)"
  by (cases sq) (auto simp: scan_order_def on_board_def image_iff)

lemma moves_empty_cell: "at b row col = None \<Longrightarrow> moves b pl row col co = []"
  by (simp add: moves_def)

lemma moves_other_color: "at b row col = Some p \<Longrightarrow> color p \<noteq> pl \<Longrightarrow> moves b pl row col co = []"
  by (simp add: moves_def)

lemma capture_scan_on:
  assumes "wf_board (board g)"
  shows "\<forall>sq \<in> set sqs. on_board (fst sq) (snd sq) \<Longrightarrow>
         capture_scan g sqs =
         Inr (list_ex (\<lambda>sq. moves (board g) (current_player g) (fst sq) (snd sq) True \<noteq> []) sqs)"
proof (induction sqs)
  case Nil
  show ?case by simp
next
  case (Cons sq sqs)
  then have on: "on_board (fst sq) (snd sq)" and IH: "capture_scan g sqs =
         Inr (list_ex (\<lambda>sq. moves (board g) (current_player g) (fst sq) (snd sq) True \<noteq> []) sqs)"
    by simp_all
  show ?case
    by (simp add: board_get_on [OF assms on] get_piece_moves_on [OF assms on] IH
        moves_empty_cell moves_other_color split: option.split)
qed

lemma move_scan_on:
  assumes "wf_board (board g)"
  shows "\<forall>sq \<in> set sqs. on_board (fst sq) (snd sq) \<Longrightarrow>
         move_scan g sqs =
         Inr (list_all (\<lambda>sq. moves (board g) (current_player g) (fst sq) (snd sq) False = []) sqs)"
proof (induction sqs)
  case Nil
  show ?case by simp
next
  case (Cons sq sqs)
  then have on: "on_board (fst sq) (snd sq)" and IH: "move_scan g sqs =
         Inr (list_all (\<lambda>sq. moves (board g) (current_player g) (fst sq) (snd sq) False = []) sqs)"
    by simp_all
  show ?case
    by (simp add: board_get_on [OF assms on] get_piece_moves_on [OF assms on] IH
        moves_empty_cell moves_other_color split: option.split)
qed

lemma check_for_captures_on:
  "wf_board (board g) \<Longrightarrow>
   check_for_captures g =
   Inr (has_capture (board g) (current_player g),
        g\<lparr>must_capture := has_capture (board g) (current_player g)\<rparr>)"
  by (simp add: check_for_captures_def capture_scan_on set_scan_order has_capture_def)

lemma is_game_over_on:
  "wf_board (board g) \<Longrightarrow> is_game_over g = Inr (no_moves (board g) (current_player g))"
  by (simp add: is_game_over_def move_scan_on set_scan_order no_moves_def)

lemma can_continue_capture_on:
  "wf_board (board g) \<Longrightarrow> on_board row col \<Longrightarrow>
   can_continue_capture g row col = Inr (moves (board g) (current_player g) row col True \<noteq> [])"
  by (simp add: can_continue_capture_def get_piece_moves_on)

lemma end_turn_on: "wf_board (board g) \<Longrightarrow> end_turn g = Inr (turn_end g)"
  by (simp add: end_turn_def check_for_captures_on is_game_over_on turn_end_def Let_def)

lemma select_piece_on:
  assumes "wf_board (board g)" "on_board row col"
  shows "select_piece g row col =
     Inr (case at (board g) row col of
            None \<Rightarrow> (False, g)
          | Some p \<Rightarrow>
              if color p \<noteq> current_player g then (False, g)
              else if must_capture g \<and> moves (board g) (current_player g) row col True = []
              then (False, g)
              else (True, g\<lparr>selected_piece := Some (row, col),
                            valid_moves := moves (board g) (current_player g) row col (must_capture g)\<rparr>))"
  by (simp add: select_piece_def board_get_on [OF assms] get_piece_moves_on [OF assms]
      split: option.split)

lemma crown_on:
  "wf_board b \<Longrightarrow> on_board row col \<Longrightarrow>
   crown b row col = Inr (put b row col (map_option (\<lambda>p. p\<lparr>king := True\<rparr>) (at b row col)))"
  by (simp add: crown_def board_get_on board_set_on)

lemma on_board_between:
  "on_board r1 c1 \<Longrightarrow> on_board r2 c2 \<Longrightarrow> on_board ((r2 + r1) div 2) ((c2 + c1) div 2)"
  by (auto simp: on_board_def)

lemma wf_board_relocate: "wf_board b \<Longrightarrow> wf_board (relocate b old new p)"
  by (simp add: relocate_def Let_def wf_board_put)

lemma at_relocate:
  assumes wf: "wf_board b" and old: "on_board orow ocol" and new: "on_board nrow ncol"
    and rc: "on_board r c" and ne: "(nrow, ncol) \<noteq> (orow, ocol)"
  shows "at (relocate b (orow, ocol) (nrow, ncol) p) r c =
     (if (r, c) = (nrow, ncol) then Some (promoted p nrow)
      else if (r, c) = (orow, ocol) then None
      else if \<bar>nrow - orow\<bar> = 2 \<and> (r, c) = ((nrow + orow) div 2, (ncol + ocol) div 2)
      then None
      else at b r c)"
proof -
  define b1 where "b1 = put b nrow ncol (Some p)"
  define b2 where "b2 = put b1 orow ocol None"
  define mr where "mr = (nrow + orow) div 2"
  define mc where "mc = (ncol + ocol) div 2"
  define b3 where "b3 = (if \<bar>nrow - orow\<bar> = 2 then put b2 mr mc None else b2)"
  have mid: "on_board mr mc"
    unfolding mr_def mc_def using old new by (rule on_board_between)
  have neq: "\<bar>nrow - orow\<bar> = 2 \<Longrightarrow> mr \<noteq> nrow"
    unfolding mr_def by auto
  have wf1: "wf_board b1" and wf2: "wf_board b2" and wf3: "wf_board b3"
    using wf by (simp_all add: wf_board_put b1_def b2_def b3_def)
  have a1: "\<And>i j. on_board i j \<Longrightarrow> at b1 i j = (if i = nrow \<and> j = ncol then Some p else at b i j)"
    unfolding b1_def by (rule at_put [OF wf new])
  have a2: "\<And>i j. on_board i j \<Longrightarrow> at b2 i j = (if i = orow \<and> j = ocol then None else at b1 i j)"
    unfolding b2_def by (rule at_put [OF wf1 old])
  have a3: "\<And>i j. on_board i j \<Longrightarrow>
      at b3 i j = (if \<bar>nrow - orow\<bar> = 2 \<and> i = mr \<and> j = mc then None else at b2 i j)"
    unfolding b3_def by (simp add: at_put [OF wf2 mid] mid)
  have new3: "at b3 nrow ncol = Some p"
    using ne neq by (auto simp: a3 [OF new] a2 [OF new] a1 [OF new])
  have "relocate b (orow, ocol) (nrow, ncol) p =
     (if (color p = ''red'' \<and> nrow = 0) \<or> (color p = ''black'' \<and> nrow = 7)
      then put b3 nrow ncol (map_option (\<lambda>q. q\<lparr>king := True\<rparr>) (at b3 nrow ncol)) else b3)"
    by (simp only: relocate_def Let_def fst_conv snd_conv b3_def b2_def b1_def mr_def mc_def)
  then have rel: "relocate b (orow, ocol) (nrow, ncol) p =
     (if (color p = ''red'' \<and> nrow = 0) \<or> (color p = ''black'' \<and> nrow = 7)
      then put b3 nrow ncol (Some (p\<lparr>king := True\<rparr>)) else b3)"
    by (simp only: new3 option.map)
  have a4: "at (relocate b (orow, ocol) (nrow, ncol) p) r c =
      (if r = nrow \<and> c = ncol then Some (promoted p nrow) else at b3 r c)"
  proof (cases "(color p = ''red'' \<and> nrow = 0) \<or> (color p = ''black'' \<and> nrow = 7)")
    case True
    then have "relocate b (orow, ocol) (nrow, ncol) p = put b3 nrow ncol (Some (p\<lparr>king := True\<rparr>))"
      by (simp only: rel if_True)
    moreover from True have "promoted p nrow = p\<lparr>king := True\<rparr>"
      by (simp only: promoted_def if_True)
    ultimately show ?thesis
      by (simp only: at_put [OF wf3 new rc])
  next
    case False
    then have "relocate b (orow, ocol) (nrow, ncol) p = b3"
      by (simp only: rel if_False)
    moreover from False have "promoted p nrow = p"
      by (simp only: promoted_def if_False)
    ultimately show ?thesis
      using new3 by auto
  qed
  show ?thesis
    unfolding a4 a3 [OF rc] a2 [OF rc] a1 [OF rc] mr_def [symmetric] mc_def [symmetric]
    using ne neq by (auto simp: )
qed

lemma make_move_reject:
  "selected_piece g = None \<or> (new_row, new_col) \<notin> set (valid_moves g) \<Longrightarrow>
   make_move g new_row new_col = Inr (False, g)"
  by (auto simp: make_move_def split: option.split)

lemma make_move_on:
  assumes wf: "wf_board (board g)"
    and sel: "selected_piece g = Some old" and old: "on_board (fst old) (snd old)"
    and mem: "(new_row, new_col) \<in> set (valid_moves g)" and new: "on_board new_row new_col"
    and p: "at (board g) (fst old) (snd old) = Some p"
  shows "make_move g new_row new_col =
     (if \<bar>new_row - fst old\<bar> = 2 \<and>
         moves (relocate (board g) old (new_row, new_col) p) (current_player g) new_row new_col True \<noteq> []
      then Inr (True, g\<lparr>board := relocate (board g) old (new_row, new_col) p,
                selected_piece := Some (new_row, new_col),
                valid_moves := moves (relocate (board g) old (new_row, new_col) p)
                                 (current_player g) new_row new_col True\<rparr>)
      else Inr (True, turn_end (g\<lparr>board := relocate (board g) old (new_row, new_col) p\<rparr>)))"
proof -
  have mid: "on_board ((new_row + fst old) div 2) ((new_col + snd old) div 2)"
    using old new by (rule on_board_between)
  define b1 where "b1 = put (board g) new_row new_col (Some p)"
  define b2 where "b2 = put b1 (fst old) (snd old) None"
  define b3 where "b3 = (if \<bar>new_row - fst old\<bar> = 2
             then put b2 ((new_row + fst old) div 2) ((new_col + snd old) div 2) None else b2)"
  define b4 where "b4 = relocate (board g) old (new_row, new_col) p"
  have wf1: "wf_board b1" and wf2: "wf_board b2" and wf3: "wf_board b3"
    using wf by (simp_all add: wf_board_put b1_def b2_def b3_def)
  have wf4: "wf_board b4"
    unfolding b4_def using wf by (rule wf_board_relocate)
  have s0: "board_get (board g) (fst old) (snd old) = Inr (Some p)"
    by (simp add: board_get_on [OF wf old] p)
  have s1: "board_set (board g) new_row new_col (Some p) = Inr b1"
    by (simp add: board_set_on [OF wf new] b1_def)
  have s2: "board_set b1 (fst old) (snd old) None = Inr b2"
    by (simp add: board_set_on [OF wf1 old] b2_def)
  have s3: "(if \<bar>new_row - fst old\<bar> = 2
             then board_set b2 ((new_row + fst old) div 2) ((new_col + snd old) div 2) None
             else Inr b2) = Inr b3"
    by (simp add: board_set_on [OF wf2 mid] b3_def)
  have b4_eq: "b4 = (if (color p = ''red'' \<and> new_row = 0) \<or> (color p = ''black'' \<and> new_row = 7)
             then put b3 new_row new_col
                    (map_option (\<lambda>q. q\<lparr>king := True\<rparr>) (at b3 new_row new_col))
             else b3)"
    by (simp only: b4_def relocate_def Let_def b3_def b2_def b1_def fst_conv snd_conv)
  have s4: "(if (color p = ''red'' \<and> new_row = 0) \<or> (color p = ''black'' \<and> new_row = 7)
             then crown b3 new_row new_col else Inr b3) = Inr b4"
  proof (cases "(color p = ''red'' \<and> new_row = 0) \<or> (color p = ''black'' \<and> new_row = 7)")
    case True
    then show ?thesis
      by (simp only: b4_eq if_True crown_on [OF wf3 new])
  next
    case False
    then show ?thesis
      by (simp only: b4_eq if_False)
  qed
  have s5: "(if \<bar>new_row - fst old\<bar> = 2 then can_continue_capture (g\<lparr>board := b4\<rparr>) new_row new_col
             else Inr False) =
            Inr (\<bar>new_row - fst old\<bar> = 2 \<and> moves b4 (current_player g) new_row new_col True \<noteq> [])"
    by (simp add: can_continue_capture_on wf4 new)
  have s6: "get_piece_moves (g\<lparr>board := b4\<rparr>) new_row new_col True =
            Inr (moves b4 (current_player g) new_row new_col True)"
    by (simp add: get_piece_moves_on wf4 new)
  have s7: "end_turn (g\<lparr>board := b4\<rparr>) = Inr (turn_end (g\<lparr>board := b4\<rparr>))"
    by (simp add: end_turn_on wf4)
  have "make_move g new_row new_col =
     (if \<bar>new_row - fst old\<bar> = 2 \<and> moves b4 (current_player g) new_row new_col True \<noteq> []
       then Inr (True, g\<lparr>board := b4, selected_piece := Some (new_row, new_col),
                valid_moves := moves b4 (current_player g) new_row new_col True\<rparr>)
       else Inr (True, turn_end (g\<lparr>board := b4\<rparr>)))"
    unfolding make_move_def Let_def sel option.case
    by (simp only: mem not_True_eq_False if_False simp_thms s0 s1 s2 s3 s4 s5 s6 s7 ebind_Inr
        option.case game.simps)
  then show ?thesis
    unfolding b4_def .
qed

lemma ebind_weak_cong: "m = m' \<Longrightarrow> ebind m f = ebind m' f"
  by simp

lemma initialize_board_eq:
  "initialize_board =
    [[None, Some \<lparr>color = ''black'', king = False\<rparr>, None, Some \<lparr>color = ''black'', king = False\<rparr>,
      None, Some \<lparr>color = ''black'', king = False\<rparr>, None, Some \<lparr>color = ''black'', king = False\<rparr>],
     [Some \<lparr>color = ''black'', king = False\<rparr>, None, Some \<lparr>color = ''black'', king = False\<rparr>, None,
      Some \<lparr>color = ''black'', king = False\<rparr>, None, Some \<lparr>color = ''black'', king = False\<rparr>, None],
     [None, Some \<lparr>color = ''black'', king = False\<rparr>, None, Some \<lparr>color = ''black'', king = False\<rparr>,
      None, Some \<lparr>color = ''black'', king = False\<rparr>, None, Some \<lparr>color = ''black'', king = False\<rparr>],
     [None, None, None, None, None, None, None, None],
     [None, None, None, None, None, None, None, None],
     [Some \<lparr>color = ''red'', king = False\<rparr>, None, Some \<lparr>color = ''red'', king = False\<rparr>, None,
      Some \<lparr>color = ''red'', king = False\<rparr>, None, Some \<lparr>color = ''red'', king = False\<rparr>, None],
     [None, Some \<lparr>color = ''red'', king = False\<rparr>, None, Some \<lparr>color = ''red'', king = False\<rparr>,
      None, Some \<lparr>color = ''red'', king = False\<rparr>, None, Some \<lparr>color = ''red'', king = False\<rparr>],
     [Some \<lparr>color = ''red'', king = False\<rparr>, None, Some \<lparr>color = ''red'', king = False\<rparr>, None,
      Some \<lparr>color = ''red'', king = False\<rparr>, None, Some \<lparr>color = ''red'', king = False\<rparr>, None]]"
  by code_simp

lemma wf_board_initial: "wf_board initialize_board"
  by code_simp

lemma no_capture_initial: "has_capture initialize_board ''red'' = False"
  by code_simp

lemma new_game_fresh: "new_game = Inr fresh_game"
  by (simp add: new_game_def fresh_game_def check_for_captures_on wf_board_initial
      no_capture_initial)

lemma cell_round_trip:
  "case_option None piece_deserialize \<circ> case_option None (\<lambda>p. Some (piece_serialize p)) = id"
  by (auto simp: fun_eq_iff piece_serialize_def piece_deserialize_def split: option.split)

lemma deserialize_serialize: "deserialize (serialize g) = Inr g"
  by (cases g)
     (simp add: deserialize_def new_game_fresh serialize_def fresh_game_def cell_round_trip)

lemma select_piece_rejected: "select_piece g row col = Inr (False, g') \<Longrightarrow> g' = g"
  by (auto simp: select_piece_def ebind_def split: sum.splits option.splits if_splits)

lemma moves_capture_only:
  "moves b pl row col True \<noteq> [] \<Longrightarrow> moves b pl row col False = moves b pl row col True"
  by (simp add: moves_def split: option.splits if_splits)

lemma moves_member:
  assumes "(nr, nc) \<in> set (moves b pl row col co)"
  shows "\<exists>p. at b row col = Some p \<and> color p = pl" and "on_board nr nc" and "at b nr nc = None"
proof -
  from assms obtain p where p: "at b row col = Some p" "color p = pl"
    by (cases "at b row col") (auto simp: moves_def split: if_splits)
  then show "\<exists>p. at b row col = Some p \<and> color p = pl" by blast
  from assms p have "(nr, nc) \<in> set (jumps b p row col) \<or> (nr, nc) \<in> set (steps b p row col)"
    by (auto simp: moves_def split: if_splits)
  then show "on_board nr nc" and "at b nr nc = None"
    by (auto simp: jumps_def steps_def jump_ok_def step_ok_def)
qed

lemma moves_jump:
  assumes "(nr, nc) \<in> set (moves b pl row col False)" "\<bar>nr - row\<bar> = 2"
  shows "moves b pl row col True \<noteq> []"
proof -
  from assms obtain p where p: "at b row col = Some p" "color p = pl"
    by (cases "at b row col") (auto simp: moves_def split: if_splits)
  have "(nr, nc) \<notin> set (steps b p row col)"
    using assms(2) unit_dir_piece_directions [of _ p] by (fastforce simp: steps_def unit_dir_def)
  with assms(1) p show ?thesis
    by (auto simp: moves_def split: if_splits)
qed

lemma has_capture_iff:
  "has_capture b pl \<longleftrightarrow> (\<exists>row col. on_board row col \<and> moves b pl row col True \<noteq> [])"
  by (simp add: has_capture_def list_ex_iff set_scan_order Bex_def)

lemma no_moves_iff:
  "no_moves b pl \<longleftrightarrow> (\<forall>row col. on_board row col \<longrightarrow> moves b pl row col False = [])"
  by (simp add: no_moves_def list_all_iff set_scan_order Ball_def)

lemma consistent_fresh: "consistent fresh_game"
  by (simp add: consistent_def fresh_game_def wf_board_initial no_capture_initial)

lemma consistent_select:
  assumes c: "consistent g" and on: "on_board row col"
    and s: "select_piece g row col = Inr (ok, g')"
  shows "consistent g'"
proof -
  from c have wf: "wf_board (board g)" by (simp add: consistent_def)
  show ?thesis
  proof (cases ok)
    case False
    with s have "g' = g" by (simp add: select_piece_rejected)
    with c show ?thesis by simp
  next
    case True
    with s have g': "g' = g\<lparr>selected_piece := Some (row, col),
        valid_moves := moves (board g) (current_player g) row col (must_capture g)\<rparr>"
      and ne: "must_capture g \<Longrightarrow> moves (board g) (current_player g) row col True \<noteq> []"
      by (auto simp: select_piece_on [OF wf on] split: option.splits if_splits)
    have "moves (board g) (current_player g) row col (must_capture g) =
          moves (board g) (current_player g) row col False"
      using ne by (cases "must_capture g") (simp_all add: moves_capture_only)
    with c on show ?thesis
      by (simp add: consistent_def g')
  qed
qed

lemma no_moves_turn_end: "no_moves (board g) (other (current_player g)) \<Longrightarrow>
  \<not> has_capture (board g) (other (current_player g))"
  using moves_capture_only [of "board g" "other (current_player g)"]
  by (fastforce simp: no_moves_iff has_capture_iff)

lemma other_cases: "other c = ''red'' \<or> other c = ''black''"
  by (simp add: other_def)

lemma consistent_turn_end:
  assumes "wf_board (board g)" "winner g = None"
  shows "consistent (turn_end g)"
  using assms other_cases [of "current_player g"] no_moves_turn_end [of g]
  by (auto simp: consistent_def turn_end_def Let_def)

lemma consistent_move:
  assumes c: "consistent g" and m: "make_move g row col = Inr (ok, g')"
  shows "consistent g'"
proof (cases "selected_piece g = None \<or> (row, col) \<notin> set (valid_moves g)")
  case True
  then have "make_move g row col = Inr (False, g)" by (rule make_move_reject)
  with m c show ?thesis by simp
next
  case False
  then obtain old where sel: "selected_piece g = Some old"
    and mem: "(row, col) \<in> set (valid_moves g)" by auto
  from c have wf: "wf_board (board g)" by (simp add: consistent_def)
  from c sel have old: "on_board (fst old) (snd old)"
    and vm: "valid_moves g = moves (board g) (current_player g) (fst old) (snd old) False"
    by (simp_all add: consistent_def)
  from mem vm have mem': "(row, col) \<in> set (moves (board g) (current_player g) (fst old) (snd old) False)"
    by simp
  from moves_member [OF mem'] obtain p where p: "at (board g) (fst old) (snd old) = Some p"
    and new: "on_board row col" by blast
  have nw: "winner g = None"
  proof (rule ccontr)
    assume "winner g \<noteq> None"
    with c have "no_moves (board g) (current_player g)" by (simp add: consistent_def)
    with old have "moves (board g) (current_player g) (fst old) (snd old) False = []"
      by (simp add: no_moves_iff)
    with mem' show False by simp
  qed
  define b' where "b' = relocate (board g) old (row, col) p"
  have wf': "wf_board b'" unfolding b'_def using wf by (rule wf_board_relocate)
  note mm = make_move_on [OF wf sel old mem new p, folded b'_def]
  show ?thesis
  proof (cases "\<bar>row - fst old\<bar> = 2 \<and> moves b' (current_player g) row col True \<noteq> []")
    case True
    with m mm have g': "g' = g\<lparr>board := b', selected_piece := Some (row, col),
        valid_moves := moves b' (current_player g) row col True\<rparr>"
      by simp
    from True mem' have "moves (board g) (current_player g) (fst old) (snd old) True \<noteq> []"
      by (simp add: moves_jump)
    with old have "has_capture (board g) (current_player g)"
      by (auto simp: has_capture_iff)
    with c have mc: "must_capture g" by (simp add: consistent_def)
    from True new have hc: "has_capture b' (current_player g)"
      by (auto simp: has_capture_iff)
    from True have "moves b' (current_player g) row col False = moves b' (current_player g) row col True"
      by (simp add: moves_capture_only)
    with c mc hc wf' new nw show ?thesis
      by (simp add: consistent_def g')
  next
    case False
    with m mm have g': "g' = turn_end (g\<lparr>board := b'\<rparr>)"
      by (simp split: if_splits)
    show ?thesis
      unfolding g' using wf' nw by (intro consistent_turn_end) simp_all
  qed
qed

lemma reachable_consistent: "reachable g \<Longrightarrow> consistent g"
proof (induction rule: reachable.induct)
  case (fresh g)
  then show ?case by (simp add: new_game_fresh consistent_fresh)
next
  case (selected g row col ok g')
  then show ?case by (blast intro: consistent_select)
next
  case (moved g row col ok g')
  then show ?case by (blast intro: consistent_move)
next
  case (reloaded g g')
  then show ?case by (simp add: deserialize_serialize)
qed

lemma select_piece_select_on:
  "wf_board (board g) \<Longrightarrow> on_board row col \<Longrightarrow> select_piece g row col = Inr (select_on g row col)"
  by (simp add: select_piece_on select_on_def split: option.split)

lemma make_move_move_on:
  assumes c: "consistent g"
  shows "make_move g row col = Inr (move_on g row col)"
proof (cases "selected_piece g = None \<or> (row, col) \<notin> set (valid_moves g)")
  case True
  then have "make_move g row col = Inr (False, g)" by (rule make_move_reject)
  moreover from True have "move_on g row col = (False, g)"
    by (auto simp: move_on_def split: option.split)
  ultimately show ?thesis by simp
next
  case False
  then obtain old where sel: "selected_piece g = Some old"
    and mem: "(row, col) \<in> set (valid_moves g)" by auto
  from c have wf: "wf_board (board g)" by (simp add: consistent_def)
  from c sel have old: "on_board (fst old) (snd old)"
    and vm: "valid_moves g = moves (board g) (current_player g) (fst old) (snd old) False"
    by (simp_all add: consistent_def)
  from mem vm have mem': "(row, col) \<in> set (moves (board g) (current_player g) (fst old) (snd old) False)"
    by simp
  from moves_member [OF mem'] obtain p where p: "at (board g) (fst old) (snd old) = Some p"
    and new: "on_board row col" by blast
  show ?thesis
    unfolding make_move_on [OF wf sel old mem new p]
    by (simp add: move_on_def sel mem p)
qed

lemma handle_select:
  "consistent g \<Longrightarrow> on_board row col \<Longrightarrow>
   handle g (Select row col) = Inr (snd (select_on g row col))"
  by (simp add: deserialize_serialize select_piece_select_on consistent_def)

lemma handle_move: "consistent g \<Longrightarrow> handle g (Move row col) = Inr (snd (move_on g row col))"
  by (simp add: deserialize_serialize make_move_move_on)

lemma reachable_select_on:
  assumes "reachable g" "on_board row col"
  shows "reachable (snd (select_on g row col))"
proof -
  from assms(1) have "wf_board (board g)"
    using reachable_consistent by (auto simp: consistent_def)
  then have "select_piece g row col = Inr (fst (select_on g row col), snd (select_on g row col))"
    using assms(2) by (simp add: select_piece_select_on)
  with assms show ?thesis by (rule reachable.selected)
qed

lemma reachable_move_on:
  assumes "reachable g"
  shows "reachable (snd (move_on g row col))"
proof -
  from assms have "consistent g" by (rule reachable_consistent)
  then have "make_move g row col = Inr (fst (move_on g row col), snd (move_on g row col))"
    by (simp add: make_move_move_on)
  with assms show ?thesis by (rule reachable.moved)
qed

lemma reachable_run:
  "reachable g \<Longrightarrow> selects_on_board rs \<Longrightarrow> reachable (run g rs)"
proof (induction g rs rule: run.induct)
  case (1 g)
  then show ?case by simp
next
  case (2 g row col rs)
  then show ?case by (simp add: reachable_select_on)
next
  case (3 g row col rs)
  then show ?case by (simp add: reachable_move_on)
qed

lemma play_run:
  "reachable g \<Longrightarrow> selects_on_board rs \<Longrightarrow> play g rs = Inr (run g rs)"
proof (induction g rs rule: run.induct)
  case (1 g)
  then show ?case by simp
next
  case (2 g row col rs)
  then show ?case
    by (simp add: handle_select reachable_consistent reachable_select_on del: handle.simps)
next
  case (3 g row col rs)
  then show ?case
    by (simp add: handle_move reachable_consistent reachable_move_on del: handle.simps)
qed

lemma reachable_fresh: "reachable fresh_game"
  by (rule reachable.fresh) (rule new_game_fresh)

lemma run_opening_selected: "run fresh_game [Select 5 2] = opening_selected"
  by code_simp


lemma run_capture_offered:
  "run fresh_game [Select 5 2, Move 4 3, Select 2 5, Move 3 4] = capture_offered"
  by code_simp

lemma run_before_jump: "run fresh_game chain_requests = before_jump"
  by code_simp

lemma move_on_before_jump: "move_on before_jump 4 3 = (True, in_chain)"
  by code_simp

lemma select_on_in_chain:
  "select_on in_chain 4 7 = (True, in_chain\<lparr>selected_piece := Some (4, 7)\<rparr>)"
  by code_simp

lemma get_piece_moves_cong:
  "board g = board h \<Longrightarrow> current_player g = current_player h \<Longrightarrow>
   get_piece_moves g row col co = get_piece_moves h row col co"
  by (simp add: get_piece_moves_def cong: option.case_cong if_cong)

lemma end_turn_board: "end_turn g = Inr g' \<Longrightarrow> board g' = board g"
  by (auto simp: end_turn_def check_for_captures_def ebind_eq_Inr split: if_splits)

lemma make_move_accepted:
  assumes "make_move g row col = Inr (True, g')"
  shows "\<exists>old b4 again. selected_piece g = Some old \<and> (row, col) \<in> set (valid_moves g) \<and>
    (if \<bar>row - fst old\<bar> = 2 then can_continue_capture (g\<lparr>board := b4\<rparr>) row col
     else Inr False) = Inr again \<and>
    (again \<longrightarrow> (\<exists>ms. get_piece_moves (g\<lparr>board := b4\<rparr>) row col True = Inr ms \<and>
           g' = g\<lparr>board := b4, selected_piece := Some (row, col), valid_moves := ms\<rparr>)) \<and>
    (\<not> again \<longrightarrow> end_turn (g\<lparr>board := b4\<rparr>) = Inr g')"
proof -
  from assms obtain old where sel: "selected_piece g = Some old"
    by (cases "selected_piece g") (simp_all add: make_move_def)
  from assms sel have mem: "(row, col) \<in> set (valid_moves g)"
    by (auto simp: make_move_def split: if_splits)
  from assms obtain piece b1 b2 b3 where
    "board_get (board g) (fst old) (snd old) = Inr piece"
    and rest: "(case piece of
              None \<Rightarrow> Inl AttributeError
            | Some p \<Rightarrow>
                ebind (if (color p = ''red'' \<and> row = 0) \<or> (color p = ''black'' \<and> row = 7)
                       then crown b3 row col else Inr b3) (\<lambda>b4.
                ebind (if \<bar>row - fst old\<bar> = 2 then can_continue_capture (g\<lparr>board := b4\<rparr>) row col
                       else Inr False) (\<lambda>again.
                  if again then
                    ebind (get_piece_moves (g\<lparr>board := b4\<rparr>) row col True) (\<lambda>moves.
                      Inr (True, g\<lparr>board := b4, selected_piece := Some (row, col),
                                     valid_moves := moves\<rparr>))
                  else ebind (end_turn (g\<lparr>board := b4\<rparr>)) (\<lambda>g''. Inr (True, g''))))) = Inr (True, g')"
    unfolding make_move_def Let_def sel option.case
    by (simp only: mem not_True_eq_False if_False simp_thms ebind_eq_Inr game.simps) blast
  from rest obtain p where "piece = Some p" by (cases piece) simp_all
  with rest obtain b4 again where
    a: "(if \<bar>row - fst old\<bar> = 2 then can_continue_capture (g\<lparr>board := b4\<rparr>) row col
         else Inr False) = Inr again"
    and b: "(if again then
                    ebind (get_piece_moves (g\<lparr>board := b4\<rparr>) row col True) (\<lambda>moves.
                      Inr (True, g\<lparr>board := b4, selected_piece := Some (row, col),
                                     valid_moves := moves\<rparr>))
                  else ebind (end_turn (g\<lparr>board := b4\<rparr>)) (\<lambda>g''. Inr (True, g''))) = Inr (True, g')"
    by (simp only: option.case ebind_eq_Inr) blast
  from b have "again \<longrightarrow> (\<exists>ms. get_piece_moves (g\<lparr>board := b4\<rparr>) row col True = Inr ms \<and>
           g' = g\<lparr>board := b4, selected_piece := Some (row, col), valid_moves := ms\<rparr>)"
    by (auto simp: ebind_eq_Inr)
  moreover from b have "\<not> again \<longrightarrow> end_turn (g\<lparr>board := b4\<rparr>) = Inr g'"
    by (auto simp: ebind_eq_Inr)
  ultimately show ?thesis
    using sel mem a by blast
qed

lemma make_move_rejected:
  assumes m: "make_move g row col = Inr (False, g')"
  shows "g' = g"
proof (cases "selected_piece g = None \<or> (row, col) \<notin> set (valid_moves g)")
  case True
  then have "make_move g row col = Inr (False, g)" by (rule make_move_reject)
  with m show ?thesis by simp
next
  case False
  with m show ?thesis
    by (auto simp: make_move_def Let_def ebind_eq_Inr split: option.splits if_splits)
qed

lemma selects_chain_requests: "selects_on_board chain_requests"
  by (simp add: chain_requests_def on_board_def)

lemma reachable_opening_selected: "reachable opening_selected"
  using reachable_run [OF reachable_fresh, of "[Select 5 2]"]
  by (simp add: run_opening_selected on_board_def del: run.simps)


lemma reachable_capture_offered: "reachable capture_offered"
  using reachable_run [OF reachable_fresh, of "[Select 5 2, Move 4 3, Select 2 5, Move 3 4]"]
  by (simp add: run_capture_offered on_board_def del: run.simps)

lemma reachable_before_jump: "reachable before_jump"
  using reachable_run [OF reachable_fresh selects_chain_requests]
  by (simp add: run_before_jump)

lemma play_chain_requests: "play fresh_game chain_requests = Inr before_jump"
  using play_run [OF reachable_fresh selects_chain_requests]
  by (simp add: run_before_jump)

lemma make_move_before_jump: "make_move before_jump 4 3 = Inr (True, in_chain)"
  by (simp add: make_move_move_on reachable_consistent reachable_before_jump move_on_before_jump)

lemma reachable_in_chain: "reachable in_chain"
  using reachable_before_jump make_move_before_jump by (rule reachable.moved)

lemma wf_board_reachable: "reachable g \<Longrightarrow> wf_board (board g)"
  using reachable_consistent by (auto simp: consistent_def)

section \<open>The claims\<close>



text \<open>
  C4. No exception path. The claim fails on the code: \<open>select_piece\<close> reads
  \<^verbatim>\<open>self.board[row][col]\<close> before any check of the coordinates. On the fresh game the
  call with row 8 raises \<^verbatim>\<open>IndexError\<close>, and the call with row -1 reads the last row,
  returns \<open>True\<close> and stores the selection \<open>(-1, 0)\<close>.
\<close>

theorem select_piece_out_of_range:
  "new_game = Inr fresh_game \<and>
   select_piece fresh_game 8 0 = Inl IndexError \<and>
   select_piece fresh_game (-1) 0 = Inr (True, fresh_game\<lparr>selected_piece := Some (-1, 0)\<rparr>)"
proof -
  have "select_piece fresh_game 8 0 = Inl IndexError"
    by code_simp
  moreover have "select_piece fresh_game (-1) 0 =
      Inr (True, fresh_game\<lparr>selected_piece := Some (-1, 0)\<rparr>)"
    by code_simp
  ultimately show ?thesis
    by (simp add: new_game_fresh)
qed

text \<open>
  C6. Snapshot round trip: deserializing a snapshot returns a game, and serializing that
  game gives the snapshot back, on all six fields. This holds for every snapshot of the
  shape that \<open>serialize\<close> produces, in particular for \<open>serialize g\<close> of a reachable \<open>g\<close>.
\<close>

theorem snapshot_round_trip: "\<exists>g. deserialize s = Inr g \<and> serialize g = s"
proof -
  have cell: "case_option None (\<lambda>p. Some (piece_serialize p)) \<circ> case_option None piece_deserialize = id"
    by (auto simp: fun_eq_iff piece_serialize_def piece_deserialize_def split: option.split)
  show ?thesis
    by (cases s) (simp add: deserialize_def new_game_fresh serialize_def fresh_game_def cell)
qed

text \<open>
  C7. A rejected operation changes nothing: when \<open>select_piece\<close> or \<open>make_move\<close> returns
  \<open>False\<close>, the state it leaves is the state it was called on, in every component. This
  holds for all coordinates, on the board or not.
\<close>

theorem rejected_operation_unchanged:
  "(select_piece g row col = Inr (False, g') \<longrightarrow> g' = g) \<and>
   (make_move g row col = Inr (False, g') \<longrightarrow> g' = g)"
proof
  show "select_piece g row col = Inr (False, g') \<longrightarrow> g' = g"
    by (auto simp: select_piece_def ebind_def split: sum.splits option.splits if_splits)
  show "make_move g row col = Inr (False, g') \<longrightarrow> g' = g"
    by (auto dest: make_move_rejected)
qed

theorem rejected_operation_unchanged_witness:
  "select_piece opening_selected 3 0 = Inr (False, opening_selected) \<and>
   make_move opening_selected 3 0 = Inr (False, opening_selected) \<and>
   opening_selected = opening_selected"
proof -
  have "select_on opening_selected 3 0 = (False, opening_selected)"
    by code_simp
  then have s: "select_piece opening_selected 3 0 = Inr (False, opening_selected)"
    by (simp add: select_piece_select_on wf_board_reachable reachable_opening_selected on_board_def)
  have "move_on opening_selected 3 0 = (False, opening_selected)"
    by code_simp
  then have m: "make_move opening_selected 3 0 = Inr (False, opening_selected)"
    by (simp add: make_move_move_on reachable_consistent reachable_opening_selected)
  from rejected_operation_unchanged [of opening_selected 3 0 opening_selected] s m
  show ?thesis by simp
qed

lemma accepted_move:
  assumes c: "consistent g" and m: "make_move g row col = Inr (True, g')"
  shows "\<exists>old p. selected_piece g = Some old \<and> on_board (fst old) (snd old) \<and>
    on_board row col \<and> at (board g) (fst old) (snd old) = Some p \<and>
    color p = current_player g \<and> at (board g) row col = None \<and>
    (row, col) \<in> set (moves (board g) (current_player g) (fst old) (snd old) False) \<and>
    winner g = None \<and>
    (\<bar>row - fst old\<bar> = 2 \<and>
       moves (relocate (board g) old (row, col) p) (current_player g) row col True \<noteq> [] \<and>
       g' = g\<lparr>board := relocate (board g) old (row, col) p,
              selected_piece := Some (row, col),
              valid_moves := moves (relocate (board g) old (row, col) p)
                               (current_player g) row col True\<rparr> \<or>
     g' = turn_end (g\<lparr>board := relocate (board g) old (row, col) p\<rparr>))"
proof -
  have "\<not> (selected_piece g = None \<or> (row, col) \<notin> set (valid_moves g))"
  proof
    assume "selected_piece g = None \<or> (row, col) \<notin> set (valid_moves g)"
    then have "make_move g row col = Inr (False, g)" by (rule make_move_reject)
    with m show False by simp
  qed
  then obtain old where sel: "selected_piece g = Some old"
    and mem: "(row, col) \<in> set (valid_moves g)" by auto
  from c have wf: "wf_board (board g)" by (simp add: consistent_def)
  from c sel have old: "on_board (fst old) (snd old)"
    and vm: "valid_moves g = moves (board g) (current_player g) (fst old) (snd old) False"
    by (simp_all add: consistent_def)
  from mem vm have mem': "(row, col) \<in> set (moves (board g) (current_player g) (fst old) (snd old) False)"
    by simp
  from moves_member [OF mem'] obtain p where p: "at (board g) (fst old) (snd old) = Some p"
    and col: "color p = current_player g"
    and new: "on_board row col" and free: "at (board g) row col = None" by blast
  have nw: "winner g = None"
  proof (rule ccontr)
    assume "winner g \<noteq> None"
    with c have "no_moves (board g) (current_player g)" by (simp add: consistent_def)
    with old have "moves (board g) (current_player g) (fst old) (snd old) False = []"
      by (simp add: no_moves_iff)
    with mem' show False by simp
  qed
  from m have "\<bar>row - fst old\<bar> = 2 \<and>
       moves (relocate (board g) old (row, col) p) (current_player g) row col True \<noteq> [] \<and>
       g' = g\<lparr>board := relocate (board g) old (row, col) p,
              selected_piece := Some (row, col),
              valid_moves := moves (relocate (board g) old (row, col) p)
                               (current_player g) row col True\<rparr> \<or>
     g' = turn_end (g\<lparr>board := relocate (board g) old (row, col) p\<rparr>)"
    unfolding make_move_on [OF wf sel old mem new p]
    by (cases "\<bar>row - fst old\<bar> = 2 \<and>
             moves (relocate (board g) old (row, col) p) (current_player g) row col True \<noteq> []")
       auto
  with sel old new p col free mem' nw show ?thesis by blast
qed



lemma turn_end_fields:
  "current_player (turn_end g) = other (current_player g)"
  "selected_piece (turn_end g) = None"
  "board (turn_end g) = board g"
  "winner (turn_end g) =
     (if no_moves (board g) (other (current_player g)) then Some (other (other (current_player g)))
      else winner g)"
  by (simp_all add: turn_end_def Let_def)



lemma is_valid_position_on_board: "is_valid_position row col = on_board row col"
  by (simp add: is_valid_position_def BOARD_SIZE_def on_board_def)

lemma get_piece_on:
  "wf_board b \<Longrightarrow> get_piece b row col = Inr (if on_board row col then at b row col else None)"
  by (simp add: get_piece_def is_valid_position_on_board board_get_on)

lemma check_capture_on:
  assumes "wf_board b" "on_board row col" "unit_dir d"
  shows "check_capture b row col (fst d) (snd d) (color p) =
     Inr (if jump_ok b p row col d then Some (row + fst d * 2, col + snd d * 2) else None)"
proof (cases "on_board (row + fst d * 2) (col + snd d * 2)")
  case True
  with assms have m: "on_board (row + fst d) (col + snd d)" by (simp add: on_board_mid)
  show ?thesis
    by (simp add: check_capture_def Let_def is_valid_position_on_board True m
        get_piece_on [OF assms(1)] jump_ok_def split: option.split)
next
  case False
  then show ?thesis
    by (simp add: check_capture_def Let_def is_valid_position_on_board jump_ok_def)
qed

lemma board_capture_loop_on:
  assumes "wf_board b" "on_board row col"
  shows "\<forall>d \<in> set ds. unit_dir d \<Longrightarrow>
     board_capture_loop b row col (color p) ds acc =
     Inr (acc \<union> set (map (\<lambda>d. (row + fst d * 2, col + snd d * 2))
                       (filter (jump_ok b p row col) ds)))"
  by (induction ds arbitrary: acc) (simp_all add: check_capture_on [OF assms])

lemma board_move_loop_on:
  assumes "wf_board b"
  shows "board_move_loop b row col ds acc =
     Inr (acc \<union> set (map (\<lambda>d. (row + fst d, col + snd d)) (filter (step_ok b row col) ds)))"
proof (induction ds arbitrary: acc)
  case Nil
  show ?case by simp
next
  case (Cons d ds)
  show ?case
    by (cases "on_board (row + fst d) (col + snd d)")
       (simp_all add: Let_def Cons.IH is_valid_position_on_board get_piece_on [OF assms]
         step_ok_def)
qed

lemma get_move_directions_eq: "get_move_directions p = piece_directions p"
  by (simp add: get_move_directions_def piece_directions_def)

lemma get_valid_moves_on:
  assumes "wf_board b" "on_board row col" "at b row col = Some p"
  shows "get_valid_moves b row col co =
     Inr (if jumps b p row col \<noteq> [] \<or> co then set (jumps b p row col)
          else set (steps b p row col))"
proof -
  have c: "board_capture_loop b row col (color p) (piece_directions p) {} =
      Inr (set (jumps b p row col))"
    by (simp add: board_capture_loop_on [OF assms(1,2)] unit_dir_piece_directions jumps_def)
  have m: "board_move_loop b row col (piece_directions p) {} = Inr (set (steps b p row col))"
    by (simp add: board_move_loop_on [OF assms(1)] steps_def)
  show ?thesis
    by (simp add: get_valid_moves_def get_piece_on [OF assms(1)] assms(2,3)
        get_move_directions_eq c m)
qed

text \<open>
  C10. The two move generators agree: on every 8 by 8 board, for every square of the board
  that holds a piece of the game's current player and for both values of
  \<open>capture_only\<close>, \<open>_get_piece_moves\<close> of \<^verbatim>\<open>game_state.py\<close> returns a list whose set of
  elements is what \<open>Board.get_valid_moves\<close> of \<^verbatim>\<open>board.py\<close> returns.
\<close>

theorem move_generators_agree:
  assumes "wf_board (board g)" and "on_board row col"
    and "board_get (board g) row col = Inr (Some p)" and "color p = current_player g"
  shows "\<exists>ms. get_piece_moves g row col capture_only = Inr ms \<and>
              get_valid_moves (board g) row col capture_only = Inr (set ms)"
proof -
  from assms(1-3) have p: "at (board g) row col = Some p"
    by (simp add: board_get_on)
  have "get_piece_moves g row col capture_only =
        Inr (moves (board g) (current_player g) row col capture_only)"
    using assms(1,2) by (rule get_piece_moves_on)
  moreover have "get_valid_moves (board g) row col capture_only =
        Inr (set (moves (board g) (current_player g) row col capture_only))"
    by (simp add: get_valid_moves_on [OF assms(1,2) p] moves_def p assms(4))
  ultimately show ?thesis by blast
qed

theorem move_generators_agree_witness:
  "wf_board (board capture_offered) \<and> on_board 4 3 \<and>
   board_get (board capture_offered) 4 3 = Inr (Some \<lparr>color = ''red'', king = False\<rparr>) \<and>
   color \<lparr>color = ''red'', king = False\<rparr> = current_player capture_offered \<and>
   get_piece_moves capture_offered 4 3 False = Inr [(2, 5)] \<and>
   get_valid_moves (board capture_offered) 4 3 False = Inr {(2, 5)}"
proof -
  note wf = wf_board_reachable [OF reachable_capture_offered]
  have on: "on_board 4 3" by (simp add: on_board_def)
  have "at (board capture_offered) 4 3 = Some \<lparr>color = ''red'', king = False\<rparr>"
    by code_simp
  then have p: "board_get (board capture_offered) 4 3 = Inr (Some \<lparr>color = ''red'', king = False\<rparr>)"
    by (simp add: board_get_on [OF wf on])
  have cl: "color \<lparr>color = ''red'', king = False\<rparr> = current_player capture_offered"
    by (simp add: capture_offered_def)
  have "moves (board capture_offered) (current_player capture_offered) 4 3 False = [(2, 5)]"
    by code_simp
  then have ms: "get_piece_moves capture_offered 4 3 False = Inr [(2, 5)]"
    by (simp add: get_piece_moves_on [OF wf on])
  from move_generators_agree [OF wf on p cl, of False] ms wf on p cl
  show ?thesis by auto
qed

lemma king_directions:
  "king p \<Longrightarrow> piece_directions p = [(-1, -1), (-1, 1), (1, -1), (1, 1)]"
  by (simp add: piece_directions_def)

lemma select_piece_board: "select_piece g row col = Inr (ok, g') \<Longrightarrow> board g' = board g"
  by (auto simp: select_piece_def ebind_eq_Inr split: option.splits if_splits)

lemma make_move_pieces:
  assumes r: "reachable g" and m: "make_move g row col = Inr (ok, g')"
    and on: "on_board r c" and q: "board_get (board g') r c = Inr (Some q)"
  shows "board_get (board g) r c = Inr (Some q) \<or>
     ((r, c) = (row, col) \<and>
      (\<exists>old p. selected_piece g = Some old \<and>
         board_get (board g) (fst old) (snd old) = Inr (Some p) \<and>
         color q = color p \<and> (king p \<longrightarrow> king q)))"
proof (cases ok)
  case False
  with m have "g' = g"
    using make_move_rejected [of g row col g'] by simp
  with q show ?thesis by simp
next
  case True
  from r have c: "consistent g" by (rule reachable_consistent)
  then have wf: "wf_board (board g)" by (simp add: consistent_def)
  from m True have m': "make_move g row col = Inr (True, g')" by simp
  from accepted_move [OF c m'] obtain old p where sel: "selected_piece g = Some old"
    and old: "on_board (fst old) (snd old)" and new: "on_board row col"
    and p: "at (board g) (fst old) (snd old) = Some p"
    and free: "at (board g) row col = None"
    and g': "\<bar>row - fst old\<bar> = 2 \<and>
       moves (relocate (board g) old (row, col) p) (current_player g) row col True \<noteq> [] \<and>
       g' = g\<lparr>board := relocate (board g) old (row, col) p,
              selected_piece := Some (row, col),
              valid_moves := moves (relocate (board g) old (row, col) p)
                               (current_player g) row col True\<rparr> \<or>
     g' = turn_end (g\<lparr>board := relocate (board g) old (row, col) p\<rparr>)"
    by blast
  from g' have b': "board g' = relocate (board g) (fst old, snd old) (row, col) p"
    by (auto simp: turn_end_fields)
  from p free have ne: "(row, col) \<noteq> (fst old, snd old)" by auto
  have wf': "wf_board (board g')"
    unfolding b' using wf by (rule wf_board_relocate)
  from q have at': "at (board g') r c = Some q"
    by (simp add: board_get_on [OF wf' on])
  note rel = at_relocate [OF wf old new on ne, of p, folded b']
  show ?thesis
  proof (cases "(r, c) = (row, col)")
    case True
    then have "at (board g') r c = Some (promoted p row)"
      unfolding rel by simp
    with at' have "q = promoted p row" by simp
    then have "color q = color p \<and> (king p \<longrightarrow> king q)"
      by (simp add: promoted_def)
    with True sel p show ?thesis
      by (simp add: board_get_on [OF wf old])
  next
    case False
    then have "at (board g') r c =
        (if (r, c) = (fst old, snd old) then None
         else if \<bar>row - fst old\<bar> = 2 \<and> (r, c) = ((row + fst old) div 2, (col + snd old) div 2)
         then None else at (board g) r c)"
      unfolding rel by (simp only: if_False)
    with at' have "at (board g) r c = Some q"
      by (metis option.distinct(1))
    then show ?thesis
      by (simp add: board_get_on [OF wf on])
  qed
qed

text \<open>
  C9. Promotion is permanent and changes the directions. A piece whose king flag is set
  has all four diagonal unit vectors as its directions, whatever its colour, in both move
  generators; the captures that \<open>_get_piece_moves\<close> returns for such a piece of the current
  player on an 8 by 8 board are the landing squares of the jumps possible in those four
  directions. No operation clears a king flag: \<open>select_piece\<close> leaves the board as it is,
  and after \<open>make_move\<close> from a reachable state every piece on a square of the board is
  either the piece that stood on that square before, unchanged, or the moved piece on the
  landing square, with its colour, and with the king flag set if it was set before.
\<close>

theorem promotion_permanent:
  "(king p \<longrightarrow>
      set (piece_directions p) = {(-1, -1), (-1, 1), (1, -1), (1, 1)} \<and>
      set (get_move_directions p) = {(-1, -1), (-1, 1), (1, -1), (1, 1)}) \<and>
   (wf_board (board g) \<and> on_board row col \<and> board_get (board g) row col = Inr (Some k) \<and>
    king k \<and> color k = current_player g \<longrightarrow>
      (\<exists>ms. get_piece_moves g row col True = Inr ms \<and>
         set ms = {(row + dr * 2, col + dc * 2) | dr dc.
                     (dr, dc) \<in> {(-1, -1), (-1, 1), (1, -1), (1, 1)} \<and>
                     jump_ok (board g) k row col (dr, dc)})) \<and>
   (select_piece s srow scol = Inr (sok, s') \<longrightarrow> board s' = board s) \<and>
   (reachable h \<and> make_move h mrow mcol = Inr (mok, h') \<and> on_board r c \<and>
    board_get (board h') r c = Inr (Some q) \<longrightarrow>
      board_get (board h) r c = Inr (Some q) \<or>
      ((r, c) = (mrow, mcol) \<and>
       (\<exists>old m. selected_piece h = Some old \<and>
          board_get (board h) (fst old) (snd old) = Inr (Some m) \<and>
          color q = color m \<and> (king m \<longrightarrow> king q))))"
proof (intro conjI impI)
  assume "king p"
  then show "set (piece_directions p) = {(-1, -1), (-1, 1), (1, -1), (1, 1)}"
    by (simp add: king_directions)
next
  assume "king p"
  then show "set (get_move_directions p) = {(-1, -1), (-1, 1), (1, -1), (1, 1)}"
    by (simp add: get_move_directions_eq king_directions)
next
  assume a: "wf_board (board g) \<and> on_board row col \<and> board_get (board g) row col = Inr (Some k) \<and>
    king k \<and> color k = current_player g"
  then have wf: "wf_board (board g)" and on: "on_board row col" by simp_all
  from a have k: "at (board g) row col = Some k" by (simp add: board_get_on [OF wf on])
  have "get_piece_moves g row col True = Inr (jumps (board g) k row col)"
    using a by (simp add: get_piece_moves_on [OF wf on] moves_def k)
  moreover have "set (jumps (board g) k row col) =
      {(row + dr * 2, col + dc * 2) | dr dc.
         (dr, dc) \<in> {(-1, -1), (-1, 1), (1, -1), (1, 1)} \<and> jump_ok (board g) k row col (dr, dc)}"
    using a by (auto simp: jumps_def king_directions)
  ultimately show "\<exists>ms. get_piece_moves g row col True = Inr ms \<and>
         set ms = {(row + dr * 2, col + dc * 2) | dr dc.
                     (dr, dc) \<in> {(-1, -1), (-1, 1), (1, -1), (1, 1)} \<and>
                     jump_ok (board g) k row col (dr, dc)}"
    by blast
next
  assume "select_piece s srow scol = Inr (sok, s')"
  then show "board s' = board s" by (rule select_piece_board)
next
  assume "reachable h \<and> make_move h mrow mcol = Inr (mok, h') \<and> on_board r c \<and>
    board_get (board h') r c = Inr (Some q)"
  then show "board_get (board h) r c = Inr (Some q) \<or>
      ((r, c) = (mrow, mcol) \<and>
       (\<exists>old m. selected_piece h = Some old \<and>
          board_get (board h) (fst old) (snd old) = Inr (Some m) \<and>
          color q = color m \<and> (king m \<longrightarrow> king q)))"
    using make_move_pieces [of h mrow mcol mok h' r c q] by blast
qed

theorem promotion_permanent_witness:
  "king \<lparr>color = ''black'', king = True\<rparr> \<and>
   set (piece_directions \<lparr>color = ''black'', king = True\<rparr>) = {(-1, -1), (-1, 1), (1, -1), (1, 1)} \<and>
   wf_board (board king_position) \<and> on_board 4 3 \<and>
   board_get (board king_position) 4 3 = Inr (Some \<lparr>color = ''red'', king = True\<rparr>) \<and>
   color \<lparr>color = ''red'', king = True\<rparr> = current_player king_position \<and>
   get_piece_moves king_position 4 3 True = Inr [(2, 1), (6, 5)] \<and>
   select_piece opening_selected 3 0 = Inr (False, opening_selected) \<and>
   reachable before_jump \<and> make_move before_jump 4 3 = Inr (True, in_chain) \<and>
   board_get (board in_chain) 4 3 = Inr (Some \<lparr>color = ''black'', king = False\<rparr>) \<and>
   selected_piece before_jump = Some (2, 1) \<and>
   board_get (board before_jump) 2 1 = Inr (Some \<lparr>color = ''black'', king = False\<rparr>)"
proof -
  have on: "on_board 4 3" and on21: "on_board 2 1" and on30: "on_board 3 0"
    by (simp_all add: on_board_def)
  have wfk: "wf_board (board king_position)" by code_simp
  have "at (board king_position) 4 3 = Some \<lparr>color = ''red'', king = True\<rparr>" by code_simp
  then have k: "board_get (board king_position) 4 3 = Inr (Some \<lparr>color = ''red'', king = True\<rparr>)"
    by (simp add: board_get_on [OF wfk on])
  have ck: "color \<lparr>color = ''red'', king = True\<rparr> = current_player king_position"
    by (simp add: king_position_def)
  have "moves (board king_position) (current_player king_position) 4 3 True = [(2, 1), (6, 5)]"
    by code_simp
  then have ms: "get_piece_moves king_position 4 3 True = Inr [(2, 1), (6, 5)]"
    by (simp add: get_piece_moves_on [OF wfk on])
  have "select_on opening_selected 3 0 = (False, opening_selected)" by code_simp
  then have sp: "select_piece opening_selected 3 0 = Inr (False, opening_selected)"
    by (simp add: select_piece_select_on wf_board_reachable reachable_opening_selected on30)
  have "at (board in_chain) 4 3 = Some \<lparr>color = ''black'', king = False\<rparr>" by code_simp
  then have q: "board_get (board in_chain) 4 3 = Inr (Some \<lparr>color = ''black'', king = False\<rparr>)"
    by (simp add: board_get_on [OF wf_board_reachable [OF reachable_in_chain] on])
  have sel: "selected_piece before_jump = Some (2, 1)" by (simp add: before_jump_def)
  have "at (board before_jump) 2 1 = Some \<lparr>color = ''black'', king = False\<rparr>" by code_simp
  then have m: "board_get (board before_jump) 2 1 = Inr (Some \<lparr>color = ''black'', king = False\<rparr>)"
    by (simp add: board_get_on [OF wf_board_reachable [OF reachable_before_jump] on21])
  from promotion_permanent [where p = "\<lparr>color = ''black'', king = True\<rparr>" and g = king_position
      and row = 4 and col = 3 and k = "\<lparr>color = ''red'', king = True\<rparr>"
      and s = opening_selected and srow = 3 and scol = 0 and sok = False and s' = opening_selected
      and h = before_jump and mrow = 4 and mcol = 3 and mok = True and h' = in_chain
      and r = 4 and c = 3 and q = "\<lparr>color = ''black'', king = False\<rparr>"]
  have "set (piece_directions \<lparr>color = ''black'', king = True\<rparr>) = {(-1, -1), (-1, 1), (1, -1), (1, 1)}"
    by simp
  with on wfk k ck ms sp reachable_before_jump make_move_before_jump q sel m
  show ?thesis by simp
qed

lemma reachable_imp_any: "reachable g \<Longrightarrow> reachable_any g"
  by (induction rule: reachable.induct) (auto intro: reachable_any.intros)

lemma pos_8:
  "length xs = 8 \<Longrightarrow> pos xs i = Inr k \<Longrightarrow> k < 8 \<and> (int k = i \<or> int k = i + 8)"
  by (auto simp: pos_def split: if_splits)

lemma board_get_cases:
  assumes wf: "wf_board b" and g: "board_get b row col = Inr x"
  shows "\<exists>i j. on_board i j \<and> x = at b i j \<and> (i = row \<or> i = row + 8) \<and> (j = col \<or> j = col + 8)"
proof -
  from g obtain k1 k2 where k1: "pos b row = Inr k1" and k2: "pos (b ! k1) col = Inr k2"
    and x: "x = b ! k1 ! k2"
    by (auto simp: board_get_def getitem_def ebind_eq_Inr)
  from wf have len: "length b = 8" by (simp add: wf_board_def)
  from pos_8 [OF len k1] have b1: "k1 < 8" "int k1 = row \<or> int k1 = row + 8" by simp_all
  from wf b1 have "length (b ! k1) = 8" by (simp add: wf_board_row)
  from pos_8 [OF this k2] have b2: "k2 < 8" "int k2 = col \<or> int k2 = col + 8" by simp_all
  have "on_board (int k1) (int k2)" using b1 b2 by (simp add: on_board_def)
  moreover have "x = at b (int k1) (int k2)" by (simp add: x at_def)
  ultimately show ?thesis using b1 b2 by blast
qed

lemma board_set_cases:
  assumes wf: "wf_board b" and s: "board_set b row col v = Inr b'"
  shows "\<exists>i j. on_board i j \<and> b' = put b i j v \<and> (i = row \<or> i = row + 8) \<and> (j = col \<or> j = col + 8)"
proof -
  from s obtain k1 k2 where k1: "pos b row = Inr k1" and k2: "pos (b ! k1) col = Inr k2"
    and b': "b' = b[k1 := (b ! k1)[k2 := v]]"
    by (auto simp: board_set_def getitem_def setitem_def ebind_eq_Inr)
  from wf have len: "length b = 8" by (simp add: wf_board_def)
  from pos_8 [OF len k1] have b1: "k1 < 8" "int k1 = row \<or> int k1 = row + 8" by simp_all
  from wf b1 have "length (b ! k1) = 8" by (simp add: wf_board_row)
  from pos_8 [OF this k2] have b2: "k2 < 8" "int k2 = col \<or> int k2 = col + 8" by simp_all
  have "on_board (int k1) (int k2)" using b1 b2 by (simp add: on_board_def)
  moreover have "b' = put b (int k1) (int k2) v" by (simp add: b' put_def)
  ultimately show ?thesis using b1 b2 by blast
qed

lemma dark_iff:
  "dark b \<longleftrightarrow> (\<forall>i j. on_board i j \<longrightarrow> at b i j \<noteq> None \<longrightarrow> odd (i + j))"
  by (simp add: dark_def list_all_iff set_scan_order Ball_def)

lemma dark_put:
  assumes "wf_board b" "dark b" "on_board i j" "v \<noteq> None \<longrightarrow> odd (i + j)"
  shows "dark (put b i j v)"
  unfolding dark_iff
proof (intro allI impI)
  fix r c assume rc: "on_board r c" and ne: "at (put b i j v) r c \<noteq> None"
  show "odd (r + c)"
  proof (cases "r = i \<and> c = j")
    case True
    with ne assms show ?thesis by (simp add: at_put)
  next
    case False
    with ne rc assms(1,3) have "at b r c \<noteq> None" by (simp add: at_put)
    with assms(2) rc show ?thesis by (simp add: dark_iff)
  qed
qed

lemma board_set_dark:
  assumes "wf_board b" "dark b" "board_set b row col v = Inr b'" "v \<noteq> None \<longrightarrow> odd (row + col)"
  shows "wf_board b' \<and> dark b'"
proof -
  from board_set_cases [OF assms(1,3)] obtain i j where ij: "on_board i j"
    and b': "b' = put b i j v" and par: "i = row \<or> i = row + 8" "j = col \<or> j = col + 8"
    by blast
  from par assms(4) have "v \<noteq> None \<longrightarrow> odd (i + j)" by auto
  with assms(1,2) ij show ?thesis
    unfolding b' by (simp add: wf_board_put dark_put)
qed

lemma board_get_Some_odd:
  assumes "wf_board b" "dark b" "board_get b row col = Inr (Some p)"
  shows "odd (row + col)"
proof -
  from board_get_cases [OF assms(1,3)] obtain i j where ij: "on_board i j"
    and x: "Some p = at b i j" and par: "i = row \<or> i = row + 8" "j = col \<or> j = col + 8"
    by blast
  from x have "at b i j \<noteq> None" by (cases "at b i j") auto
  with assms(2) ij have "odd (i + j)" unfolding dark_iff by blast
  with par show ?thesis by auto
qed

lemma crown_dark:
  assumes "wf_board b" "dark b" "crown b row col = Inr b'"
  shows "wf_board b' \<and> dark b'"
proof -
  from assms(3) obtain cell where c: "board_get b row col = Inr cell"
    and s: "board_set b row col (map_option (\<lambda>p. p\<lparr>king := True\<rparr>) cell) = Inr b'"
    by (auto simp: crown_def ebind_eq_Inr)
  have "map_option (\<lambda>p. p\<lparr>king := True\<rparr>) cell \<noteq> None \<longrightarrow> odd (row + col)"
    using board_get_Some_odd [OF assms(1,2)] c by (cases cell) auto
  with assms(1,2) s show ?thesis by (rule board_set_dark)
qed

lemma capture_cond_True:
  "capture_cond b p row col d = Inr True \<Longrightarrow> on_board (row + fst d * 2) (col + snd d * 2)"
  by (auto simp: capture_cond_def Let_def on_board_def split: if_splits)

lemma capture_loop_sound:
  "capture_loop b p row col ds = Inr ms \<Longrightarrow> m \<in> set ms \<Longrightarrow>
   on_board (fst m) (snd m) \<and> (\<exists>d \<in> set ds. m = (row + fst d * 2, col + snd d * 2))"
proof (induction ds arbitrary: ms)
  case Nil
  then show ?case by simp
next
  case (Cons d ds)
  from Cons.prems(1) obtain hit rest where h: "capture_cond b p row col d = Inr hit"
    and r: "capture_loop b p row col ds = Inr rest"
    and ms: "ms = (if hit then (row + fst d * 2, col + snd d * 2) # rest else rest)"
    by (auto simp: ebind_eq_Inr)
  show ?case
  proof (cases "m \<in> set rest")
    case True
    from Cons.IH [OF r True] show ?thesis by auto
  next
    case False
    with Cons.prems(2) ms have "hit" and "m = (row + fst d * 2, col + snd d * 2)"
      by (auto split: if_splits)
    with h capture_cond_True [of b p row col d] show ?thesis by auto
  qed
qed

lemma move_loop_sound:
  "move_loop b row col ds = Inr ms \<Longrightarrow> m \<in> set ms \<Longrightarrow>
   on_board (fst m) (snd m) \<and> (\<exists>d \<in> set ds. m = (row + fst d, col + snd d))"
proof (induction ds arbitrary: ms)
  case Nil
  then show ?case by simp
next
  case (Cons d ds)
  from Cons.prems(1) obtain free rest where
    f: "(if 0 \<le> row + fst d \<and> row + fst d < 8 \<and> 0 \<le> col + snd d \<and> col + snd d < 8
         then ebind (board_get b (row + fst d) (col + snd d)) (\<lambda>dest. Inr (dest = None))
         else Inr False) = Inr free"
    and r: "move_loop b row col ds = Inr rest"
    and ms: "ms = (if free then (row + fst d, col + snd d) # rest else rest)"
    by (auto simp: ebind_eq_Inr Let_def)
  show ?case
  proof (cases "m \<in> set rest")
    case True
    from Cons.IH [OF r True] show ?thesis by auto
  next
    case False
    with Cons.prems(2) ms have "free" and m: "m = (row + fst d, col + snd d)"
      by (auto split: if_splits)
    with f have "on_board (row + fst d) (col + snd d)"
      by (auto simp: on_board_def split: if_splits)
    with m show ?thesis by auto
  qed
qed

lemma unit_dir_parity:
  assumes "unit_dir d" "odd (row + col)"
  shows "odd (row + fst d * 2 + (col + snd d * 2))" and "odd (row + fst d + (col + snd d))"
proof -
  have shift: "odd (row + col + k)" if "even k" for k
    using that assms(2) by simp
  from assms(1) have ev: "even (fst d + snd d)"
    by (cases d) (auto simp: unit_dir_def abs_if split: if_splits)
  have eq1: "row + fst d + (col + snd d) = row + col + (fst d + snd d)" by simp
  show "odd (row + fst d + (col + snd d))"
    unfolding eq1 by (rule shift [OF ev])
  have ev2: "even (2 * (fst d + snd d))" by simp
  have eq2: "row + fst d * 2 + (col + snd d * 2) = row + col + 2 * (fst d + snd d)" by simp
  show "odd (row + fst d * 2 + (col + snd d * 2))"
    unfolding eq2 by (rule shift [OF ev2])
qed

lemma get_piece_moves_dark:
  assumes wf: "wf_board (board g)" and dk: "dark (board g)"
    and ms: "get_piece_moves g row col co = Inr ms" and m: "m \<in> set ms"
  shows "on_board (fst m) (snd m) \<and> odd (fst m + snd m)"
proof -
  from ms obtain cell where cell: "board_get (board g) row col = Inr cell"
    by (auto simp: get_piece_moves_def ebind_eq_Inr)
  with ms m obtain p where p: "cell = Some p"
    by (cases cell) (auto simp: get_piece_moves_def)
  from board_get_Some_odd [OF wf dk] cell p have odd: "odd (row + col)" by simp
  from ms m cell p obtain caps where caps: "capture_loop (board g) p row col (piece_directions p) = Inr caps"
    and alt: "m \<in> set caps \<or> (\<exists>steps. move_loop (board g) row col (piece_directions p) = Inr steps \<and>
        m \<in> set steps)"
    by (auto simp: get_piece_moves_def ebind_eq_Inr split: if_splits)
  from alt show ?thesis
  proof
    assume "m \<in> set caps"
    from capture_loop_sound [OF caps this] obtain d where on: "on_board (fst m) (snd m)"
      and d: "d \<in> set (piece_directions p)" and md: "m = (row + fst d * 2, col + snd d * 2)"
      by blast
    from unit_dir_parity(1) [OF unit_dir_piece_directions [OF d] odd] on md show ?thesis
      by simp
  next
    assume "\<exists>steps. move_loop (board g) row col (piece_directions p) = Inr steps \<and> m \<in> set steps"
    then obtain steps where st: "move_loop (board g) row col (piece_directions p) = Inr steps"
      and ms: "m \<in> set steps" by blast
    from move_loop_sound [OF st ms] obtain d where on: "on_board (fst m) (snd m)"
      and d: "d \<in> set (piece_directions p)" and md: "m = (row + fst d, col + snd d)"
      by blast
    from unit_dir_parity(2) [OF unit_dir_piece_directions [OF d] odd] on md show ?thesis
      by simp
  qed
qed

lemma make_move_boards:
  assumes "make_move g row col = Inr (True, g')"
  shows "\<exists>old piece b1 b2 b3 b4. selected_piece g = Some old \<and> (row, col) \<in> set (valid_moves g) \<and>
    board_get (board g) (fst old) (snd old) = Inr piece \<and>
    board_set (board g) row col piece = Inr b1 \<and>
    board_set b1 (fst old) (snd old) None = Inr b2 \<and>
    (b3 = b2 \<or> board_set b2 ((row + fst old) div 2) ((col + snd old) div 2) None = Inr b3) \<and>
    (b4 = b3 \<or> crown b3 row col = Inr b4) \<and>
    ((\<exists>ms. get_piece_moves (g\<lparr>board := b4\<rparr>) row col True = Inr ms \<and>
           g' = g\<lparr>board := b4, selected_piece := Some (row, col), valid_moves := ms\<rparr>) \<or>
     end_turn (g\<lparr>board := b4\<rparr>) = Inr g')"
proof -
  from assms obtain old where sel: "selected_piece g = Some old"
    by (cases "selected_piece g") (simp_all add: make_move_def)
  from assms sel have mem: "(row, col) \<in> set (valid_moves g)"
    by (auto simp: make_move_def split: if_splits)
  from assms obtain piece b1 b2 b3 where
    get: "board_get (board g) (fst old) (snd old) = Inr piece"
    and s1: "board_set (board g) row col piece = Inr b1"
    and s2: "board_set b1 (fst old) (snd old) None = Inr b2"
    and s3: "(if \<bar>row - fst old\<bar> = 2
              then board_set b2 ((row + fst old) div 2) ((col + snd old) div 2) None
              else Inr b2) = Inr b3"
    and rest: "(case piece of
              None \<Rightarrow> Inl AttributeError
            | Some p \<Rightarrow>
                ebind (if (color p = ''red'' \<and> row = 0) \<or> (color p = ''black'' \<and> row = 7)
                       then crown b3 row col else Inr b3) (\<lambda>b4.
                ebind (if \<bar>row - fst old\<bar> = 2 then can_continue_capture (g\<lparr>board := b4\<rparr>) row col
                       else Inr False) (\<lambda>again.
                  if again then
                    ebind (get_piece_moves (g\<lparr>board := b4\<rparr>) row col True) (\<lambda>moves.
                      Inr (True, g\<lparr>board := b4, selected_piece := Some (row, col),
                                     valid_moves := moves\<rparr>))
                  else ebind (end_turn (g\<lparr>board := b4\<rparr>)) (\<lambda>g''. Inr (True, g''))))) = Inr (True, g')"
    unfolding make_move_def Let_def sel option.case
    by (simp only: mem not_True_eq_False if_False simp_thms ebind_eq_Inr game.simps) blast
  from s3 have b3: "b3 = b2 \<or> board_set b2 ((row + fst old) div 2) ((col + snd old) div 2) None = Inr b3"
    by (cases "\<bar>row - fst old\<bar> = 2") simp_all
  from rest obtain p where "piece = Some p" by (cases piece) simp_all
  with rest obtain b4 again where
    c: "(if (color p = ''red'' \<and> row = 0) \<or> (color p = ''black'' \<and> row = 7)
         then crown b3 row col else Inr b3) = Inr b4"
    and b: "(if again then
                    ebind (get_piece_moves (g\<lparr>board := b4\<rparr>) row col True) (\<lambda>moves.
                      Inr (True, g\<lparr>board := b4, selected_piece := Some (row, col),
                                     valid_moves := moves\<rparr>))
                  else ebind (end_turn (g\<lparr>board := b4\<rparr>)) (\<lambda>g''. Inr (True, g''))) = Inr (True, g')"
    by (simp only: option.case ebind_eq_Inr) blast
  from c have b4: "b4 = b3 \<or> crown b3 row col = Inr b4"
    by (cases "(color p = ''red'' \<and> row = 0) \<or> (color p = ''black'' \<and> row = 7)") simp_all
  from b have fin: "(\<exists>ms. get_piece_moves (g\<lparr>board := b4\<rparr>) row col True = Inr ms \<and>
           g' = g\<lparr>board := b4, selected_piece := Some (row, col), valid_moves := ms\<rparr>) \<or>
     end_turn (g\<lparr>board := b4\<rparr>) = Inr g'"
    by (cases again) (auto simp: ebind_eq_Inr)
  show ?thesis
    using sel mem get s1 s2 b3 b4 fin by blast
qed

lemma end_turn_valid_moves: "end_turn g = Inr g' \<Longrightarrow> valid_moves g' = []"
  by (auto simp: end_turn_def check_for_captures_def ebind_eq_Inr split: if_splits)

lemma dark_initial: "dark initialize_board"
  unfolding initialize_board_eq by code_simp

lemma dark_inv_fresh: "dark_inv fresh_game"
  by (simp add: dark_inv_def fresh_game_def wf_board_initial dark_initial)

lemma dark_inv_select:
  assumes inv: "dark_inv g" and s: "select_piece g row col = Inr (ok, g')"
  shows "dark_inv g'"
proof -
  from inv have wf: "wf_board (board g)" and dk: "dark (board g)"
    by (simp_all add: dark_inv_def)
  from s have "g' = g \<or> (\<exists>co ms. get_piece_moves g row col co = Inr ms \<and>
      g' = g\<lparr>selected_piece := Some (row, col), valid_moves := ms\<rparr>)"
    by (auto simp: select_piece_def ebind_eq_Inr split: option.splits if_splits)
  then show ?thesis
  proof
    assume "g' = g"
    with inv show ?thesis by simp
  next
    assume "\<exists>co ms. get_piece_moves g row col co = Inr ms \<and>
      g' = g\<lparr>selected_piece := Some (row, col), valid_moves := ms\<rparr>"
    then obtain co ms where ms: "get_piece_moves g row col co = Inr ms"
      and g': "g' = g\<lparr>selected_piece := Some (row, col), valid_moves := ms\<rparr>" by blast
    from get_piece_moves_dark [OF wf dk ms]
    have "list_all (\<lambda>m. on_board (fst m) (snd m) \<and> odd (fst m + snd m)) ms"
      by (simp add: list_all_iff)
    with wf dk show ?thesis by (simp add: g' dark_inv_def)
  qed
qed

lemma dark_inv_move:
  assumes inv: "dark_inv g" and m: "make_move g row col = Inr (ok, g')"
  shows "dark_inv g'"
proof (cases ok)
  case False
  with m have "g' = g" using make_move_rejected [of g row col g'] by simp
  with inv show ?thesis by simp
next
  case True
  from inv have wf: "wf_board (board g)" and dk: "dark (board g)"
    and vm: "\<forall>m \<in> set (valid_moves g). on_board (fst m) (snd m) \<and> odd (fst m + snd m)"
    by (simp_all add: dark_inv_def list_all_iff)
  from m True have "make_move g row col = Inr (True, g')" by simp
  from make_move_boards [OF this] obtain old piece b1 b2 b3 b4 where
    mem: "(row, col) \<in> set (valid_moves g)"
    and s1: "board_set (board g) row col piece = Inr b1"
    and s2: "board_set b1 (fst old) (snd old) None = Inr b2"
    and s3: "b3 = b2 \<or> board_set b2 ((row + fst old) div 2) ((col + snd old) div 2) None = Inr b3"
    and s4: "b4 = b3 \<or> crown b3 row col = Inr b4"
    and fin: "(\<exists>ms. get_piece_moves (g\<lparr>board := b4\<rparr>) row col True = Inr ms \<and>
           g' = g\<lparr>board := b4, selected_piece := Some (row, col), valid_moves := ms\<rparr>) \<or>
        end_turn (g\<lparr>board := b4\<rparr>) = Inr g'"
    by blast
  from vm mem have "odd (row + col)" by auto
  then have "piece \<noteq> None \<longrightarrow> odd (row + col)" by simp
  from board_set_dark [OF wf dk s1 this] have d1: "wf_board b1" "dark b1" by simp_all
  have none: "(None :: piece option) \<noteq> None \<longrightarrow> odd (r + c)" for r c :: int by simp
  from board_set_dark [OF d1 s2 none] have d2: "wf_board b2" "dark b2" by simp_all
  from s3 have d3: "wf_board b3 \<and> dark b3"
  proof
    assume "b3 = b2" with d2 show ?thesis by simp
  next
    assume "board_set b2 ((row + fst old) div 2) ((col + snd old) div 2) None = Inr b3"
    from board_set_dark [OF d2 this none] show ?thesis .
  qed
  from s4 have d4: "wf_board b4 \<and> dark b4"
  proof
    assume "b4 = b3" with d3 show ?thesis by simp
  next
    assume "crown b3 row col = Inr b4"
    with d3 show ?thesis by (auto dest: crown_dark)
  qed
  from fin show ?thesis
  proof
    assume "\<exists>ms. get_piece_moves (g\<lparr>board := b4\<rparr>) row col True = Inr ms \<and>
           g' = g\<lparr>board := b4, selected_piece := Some (row, col), valid_moves := ms\<rparr>"
    then obtain ms where ms: "get_piece_moves (g\<lparr>board := b4\<rparr>) row col True = Inr ms"
      and g': "g' = g\<lparr>board := b4, selected_piece := Some (row, col), valid_moves := ms\<rparr>"
      by blast
    from d4 have "wf_board (board (g\<lparr>board := b4\<rparr>))" "dark (board (g\<lparr>board := b4\<rparr>))"
      by simp_all
    from get_piece_moves_dark [OF this ms]
    have "list_all (\<lambda>m. on_board (fst m) (snd m) \<and> odd (fst m + snd m)) ms"
      by (simp add: list_all_iff)
    with d4 show ?thesis by (simp add: g' dark_inv_def)
  next
    assume e: "end_turn (g\<lparr>board := b4\<rparr>) = Inr g'"
    from end_turn_board [OF e] end_turn_valid_moves [OF e] d4
    show ?thesis by (simp add: dark_inv_def)
  qed
qed

lemma reachable_any_dark_inv: "reachable_any g \<Longrightarrow> dark_inv g"
proof (induction rule: reachable_any.induct)
  case (fresh_any g)
  then show ?case by (simp add: new_game_fresh dark_inv_fresh)
next
  case (selected_any g row col ok g')
  then show ?case by (auto dest: dark_inv_select)
next
  case (moved_any g row col ok g')
  then show ?case by (auto dest: dark_inv_move)
next
  case (reloaded_any g g')
  then show ?case by (simp add: deserialize_serialize)
qed

text \<open>
  C8. Dark-square invariant. In every state that the fresh game reaches through
  \<open>select_piece\<close> and \<open>make_move\<close> (and through saving and reloading), every square that
  holds a piece has \<open>row + col\<close> odd. The coordinates passed to the two operations are
  arbitrary integers here: the invariant does not depend on the caller keeping to the
  board. The square is read as the code reads it, so the statement also covers a negative
  index, which Python counts from the end of the list.
\<close>

theorem pieces_on_dark_squares:
  assumes "reachable_any g" and "board_get (board g) row col = Inr (Some p)"
  shows "odd (row + col)"
proof -
  from assms(1) have "dark_inv g" by (rule reachable_any_dark_inv)
  then have "wf_board (board g)" "dark (board g)" by (simp_all add: dark_inv_def)
  then show ?thesis using assms(2) by (rule board_get_Some_odd)
qed

theorem pieces_on_dark_squares_witness:
  "reachable_any in_chain \<and>
   board_get (board in_chain) 4 3 = Inr (Some \<lparr>color = ''black'', king = False\<rparr>) \<and>
   odd (4 + 3 :: int)"
proof -
  have r: "reachable_any in_chain"
    using reachable_in_chain by (rule reachable_imp_any)
  have "at (board in_chain) 4 3 = Some \<lparr>color = ''black'', king = False\<rparr>" by code_simp
  then have b: "board_get (board in_chain) 4 3 = Inr (Some \<lparr>color = ''black'', king = False\<rparr>)"
    by (simp add: board_get_on wf_board_reachable reachable_in_chain on_board_def)
  from pieces_on_dark_squares [OF r b] r b show ?thesis by simp
qed










lemma end_turn_player: "end_turn g = Inr g' \<Longrightarrow> current_player g' = other (current_player g)"
  by (auto simp: end_turn_def check_for_captures_def ebind_eq_Inr split: if_splits)

lemma other_differs: "other c \<noteq> c"
  by (simp add: other_def)

lemma same_player_chain:
  assumes mv: "make_move g row col = Inr (True, g')"
    and same: "current_player g' = current_player g"
  shows "selected_piece g' = Some (row, col) \<and>
         get_piece_moves g' row col True = Inr (valid_moves g') \<and> valid_moves g' \<noteq> []"
proof -
  from make_move_accepted [OF mv] obtain old b4 again where
    old: "selected_piece g = Some old"
    and a: "(if \<bar>row - fst old\<bar> = 2 then can_continue_capture (g\<lparr>board := b4\<rparr>) row col
         else Inr False) = Inr again"
    and yes: "again \<Longrightarrow> \<exists>ms. get_piece_moves (g\<lparr>board := b4\<rparr>) row col True = Inr ms \<and>
           g' = g\<lparr>board := b4, selected_piece := Some (row, col), valid_moves := ms\<rparr>"
    and no: "\<not> again \<Longrightarrow> end_turn (g\<lparr>board := b4\<rparr>) = Inr g'"
    by blast
  show ?thesis
  proof (cases again)
    case True
    from yes [OF True] obtain ms where
      ms: "get_piece_moves (g\<lparr>board := b4\<rparr>) row col True = Inr ms"
      and g': "g' = g\<lparr>board := b4, selected_piece := Some (row, col), valid_moves := ms\<rparr>"
      by blast
    from a True have "can_continue_capture (g\<lparr>board := b4\<rparr>) row col = Inr True"
      by (simp split: if_splits)
    with ms have ne: "ms \<noteq> []" by (simp add: can_continue_capture_def)
    have "get_piece_moves g' row col True = get_piece_moves (g\<lparr>board := b4\<rparr>) row col True"
      by (rule get_piece_moves_cong) (simp_all add: g')
    with ms ne show ?thesis by (simp add: g')
  next
    case False
    from end_turn_player [OF no [OF False]] have "current_player g' = other (current_player g)"
      by simp
    with same other_differs [of "current_player g"] show ?thesis by simp
  qed
qed




text \<open>
  C1. Mandatory chain capture with the same piece. The claim fails on the code: nothing in
  \<open>select_piece\<close> knows that a chain is in progress. In the recorded game black jumps from
  (2, 1) to (4, 3) and can jump on from there, so the turn continues with the selection on
  (4, 3); selecting the other black piece on (4, 7), which has a capture of its own, is
  accepted and moves the selection to (4, 7).
\<close>

theorem chain_lock_counterexample:
  "new_game = Inr fresh_game \<and> play fresh_game chain_requests = Inr before_jump \<and>
   make_move before_jump 4 3 = Inr (True, in_chain) \<and>
   current_player in_chain = current_player before_jump \<and>
   selected_piece in_chain = Some (4, 3) \<and>
   can_continue_capture in_chain 4 3 = Inr True \<and>
   select_piece in_chain 4 7 = Inr (True, in_chain\<lparr>selected_piece := Some (4, 7)\<rparr>)"
proof -
  note wf = wf_board_reachable [OF reachable_in_chain]
  have "moves (board in_chain) (current_player in_chain) 4 3 True \<noteq> []"
    by code_simp
  then have cc: "can_continue_capture in_chain 4 3 = Inr True"
    by (simp add: can_continue_capture_on [OF wf] on_board_def)
  have sp: "select_piece in_chain 4 7 = Inr (True, in_chain\<lparr>selected_piece := Some (4, 7)\<rparr>)"
    by (simp add: select_piece_select_on [OF wf] on_board_def select_on_in_chain)
  have "current_player in_chain = current_player before_jump"
    and "selected_piece in_chain = Some (4, 3)"
    by (simp_all add: in_chain_def before_jump_def)
  with new_game_fresh play_chain_requests make_move_before_jump cc sp show ?thesis
    by simp
qed

text \<open>
  C1, as amended. After an accepted move that leaves the turn with the same player, the
  selection is on the landing square and the valid moves are the capture-only moves of the
  piece on it, of which there is at least one; this holds in every state and for all
  arguments. If moreover the state before the move was reached from the fresh game by
  \<open>select_piece\<close> calls on squares of the board (row and column in \<open>0..7\<close>), \<open>make_move\<close> calls
  with any arguments and reloads, then selecting a square \<open>(r, c)\<close> of the board is
  rejected, leaving the state and so the selection unchanged, exactly when the capture-only
  moves of \<open>(r, c)\<close> for the current player are empty; otherwise the selection is accepted
  and moves to \<open>(r, c)\<close>, with those captures as the valid moves.
\<close>

theorem chain_selection:
  assumes "make_move g row col = Inr (True, g')"
    and "current_player g' = current_player g"
  shows "selected_piece g' = Some (row, col) \<and>
         get_piece_moves g' row col True = Inr (valid_moves g') \<and> valid_moves g' \<noteq> [] \<and>
         (reachable g \<longrightarrow> on_board r c \<longrightarrow>
            (\<exists>ms. get_piece_moves g' r c True = Inr ms \<and>
               select_piece g' r c =
                 (if ms = [] then Inr (False, g')
                  else Inr (True, g'\<lparr>selected_piece := Some (r, c), valid_moves := ms\<rparr>))))"
proof -
  from same_player_chain [OF assms] have sel: "selected_piece g' = Some (row, col)"
    and vm: "get_piece_moves g' row col True = Inr (valid_moves g')"
    and ne: "valid_moves g' \<noteq> []"
    by simp_all
  have "\<exists>ms. get_piece_moves g' r c True = Inr ms \<and>
          select_piece g' r c =
            (if ms = [] then Inr (False, g')
             else Inr (True, g'\<lparr>selected_piece := Some (r, c), valid_moves := ms\<rparr>))"
    if r: "reachable g" and on: "on_board r c"
  proof -
    from r have c: "consistent g" by (rule reachable_consistent)
    from r assms(1) have "reachable g'" by (rule reachable.moved)
    then have c': "consistent g'" by (rule reachable_consistent)
    then have wf': "wf_board (board g')" by (simp add: consistent_def)
    from accepted_move [OF c assms(1)] have new: "on_board row col" by blast
    from vm ne have "moves (board g') (current_player g') row col True \<noteq> []"
      by (simp add: get_piece_moves_on [OF wf' new])
    with new have "has_capture (board g') (current_player g')"
      by (auto simp: has_capture_iff)
    with c' have mc: "must_capture g'" by (simp add: consistent_def)
    have sp: "select_piece g' r c =
        (if moves (board g') (current_player g') r c True = [] then Inr (False, g')
         else Inr (True, g'\<lparr>selected_piece := Some (r, c),
                valid_moves := moves (board g') (current_player g') r c True\<rparr>))"
      by (simp add: select_piece_on [OF wf' on] mc moves_empty_cell moves_other_color
          split: option.split)
    have "get_piece_moves g' r c True = Inr (moves (board g') (current_player g') r c True)"
      by (rule get_piece_moves_on [OF wf' on])
    with sp show ?thesis by simp
  qed
  with sel vm ne show ?thesis by blast
qed

theorem chain_selection_witness:
  "make_move before_jump 4 3 = Inr (True, in_chain) \<and>
   current_player in_chain = current_player before_jump \<and>
   reachable before_jump \<and> on_board 2 3 \<and>
   selected_piece in_chain = Some (4, 3) \<and>
   get_piece_moves in_chain 4 3 True = Inr (valid_moves in_chain) \<and>
   valid_moves in_chain = [(6, 5)] \<and>
   get_piece_moves in_chain 2 3 True = Inr [] \<and>
   select_piece in_chain 2 3 = Inr (False, in_chain)"
proof -
  note wf = wf_board_reachable [OF reachable_in_chain]
  have on: "on_board 2 3" by (simp add: on_board_def)
  have cp: "current_player in_chain = current_player before_jump"
    by (simp add: in_chain_def before_jump_def)
  have vm: "valid_moves in_chain = [(6, 5)]"
    by (simp add: in_chain_def)
  have "moves (board in_chain) (current_player in_chain) 2 3 True = []"
    by code_simp
  then have ms: "get_piece_moves in_chain 2 3 True = Inr []"
    by (simp add: get_piece_moves_on [OF wf on])
  from chain_selection [OF make_move_before_jump cp, of 2 3] ms vm
    reachable_before_jump make_move_before_jump cp on
  show ?thesis by simp
qed

end
